theory Spec2Isabelle
  imports Main "HOL-Library.Word" "HOL-Library.Sublist"
begin

unbundle bit_operations_syntax

section \<open>Symbols (grammar/core.py)\<close>

text \<open>
  \<^verbatim>\<open>Symbol\<close> is an abstract class holding a \<^verbatim>\<open>name\<close>; \<^verbatim>\<open>Terminal\<close>, its subclass
  \<^verbatim>\<open>Marker\<close> and \<^verbatim>\<open>NonTerminal\<close> are the concrete classes. The class of a symbol is what
  \<^verbatim>\<open>isinstance\<close> reads, so it is the constructor of the datatype. A terminal's
  \<^verbatim>\<open>token_matcher\<close> callable is never read by the code modelled here and is left out.
\<close>

datatype symbol = Terminal string | Marker string | NonTerminal string

fun name :: "symbol \<Rightarrow> string" where
  "name (Terminal n) = n"
| "name (Marker n) = n"
| "name (NonTerminal n) = n"

text \<open>\<^verbatim>\<open>Symbol.__eq__\<close>: two symbols are equal when their names are, whatever their classes.\<close>

definition Symbol_eq :: "symbol \<Rightarrow> symbol \<Rightarrow> bool" where
  "Symbol_eq a b = (name a = name b)"


text \<open>\<^verbatim>\<open>isinstance(x, NonTerminal)\<close> and \<^verbatim>\<open>isinstance(x, Terminal)\<close> (a marker is a terminal).\<close>

fun is_NonTerminal :: "symbol \<Rightarrow> bool" where
  "is_NonTerminal (NonTerminal n) = True"
| "is_NonTerminal s = False"

fun is_Terminal :: "symbol \<Rightarrow> bool" where
  "is_Terminal (NonTerminal n) = False"
| "is_Terminal s = True"

text \<open>
  The two process-wide markers. The name of \<^verbatim>\<open>EMPTY\<close> is the Greek letter epsilon, two bytes
  in UTF-8. The source tests \<^verbatim>\<open>token is not EMPTY\<close> (identity with this one object) in
  \<^verbatim>\<open>__iter__\<close> and \<^verbatim>\<open>count(EMPTY)\<close> (equality, so by name) in \<^verbatim>\<open>__len__\<close>; identity with
  the marker object is equality with the constant below, equality by name is \<open>Symbol_eq\<close>.
\<close>

definition EOF :: symbol where
  "EOF = Marker ''eof''"

definition EMPTY :: symbol where
  "EMPTY = Marker [CHR 0xCE, CHR 0xB5]"

section \<open>Expansions: the right-hand side of a production (grammar/core.py)\<close>

text \<open>\<^verbatim>\<open>class Expansion(list[Symbol])\<close>: the stored list is the value; the overridden views follow.\<close>

type_synonym Expansion = "symbol list"


text \<open>\<^verbatim>\<open>list.count(EMPTY)\<close> compares every stored element with \<^verbatim>\<open>==\<close>.\<close>

definition count_EMPTY :: "Expansion \<Rightarrow> nat" where
  "count_EMPTY self = length (filter (\<lambda>s. Symbol_eq s EMPTY) self)"

text \<open>\<^verbatim>\<open>__len__\<close>: \<^verbatim>\<open>super().__len__() - self.count(EMPTY)\<close>, on Python's integers.\<close>

definition Expansion_len :: "Expansion \<Rightarrow> int" where
  "Expansion_len self = int (length self) - int (count_EMPTY self)"



section \<open>Actions and the serialised table (lr/core.py, gen/lalr1_gen.py)\<close>

text \<open>
  The four action classes, as \<^verbatim>\<open>gen_parser\<close> matches them: \<^verbatim>\<open>Shift(next_state)\<close>,
  \<^verbatim>\<open>Goto(next_state)\<close>, \<^verbatim>\<open>Reduce(lhs, len_rhs)\<close> and \<^verbatim>\<open>Accept()\<close>. The type parameter is
  the state object an action points to.
\<close>

datatype 'st action = Shift 'st | Goto 'st | Reduce symbol int | Accept

text \<open>
  Modelled from the spec: the constructor of \<^verbatim>\<open>Reduce\<close> (lr/core.py is not among the
  sources). The table builder calls \<^verbatim>\<open>Reduce(item.name, item.rule)\<close>; the spec records
  \<open>Reduce(A, |\<alpha>|)\<close> with the length excluding epsilon, which is \<^verbatim>\<open>len(rule)\<close>.
\<close>

definition Reduce_of :: "symbol \<Rightarrow> Expansion \<Rightarrow> 'st action" where
  "Reduce_of lhs rule = Reduce lhs (Expansion_len rule)"

text \<open>A value of the simplified table: an integer, or the pair \<^verbatim>\<open>(lhs.name, len_rhs)\<close>.\<close>

datatype encoded = EInt int | EPair string int

text \<open>
  The \<^verbatim>\<open>match action\<close> statement of \<^verbatim>\<open>gen_parser\<close>; \<^verbatim>\<open>state_id\<close> reads \<^verbatim>\<open>next_state.id\<close>.
  In Python \<^verbatim>\<open>next_state.id << 1 | 0b1\<close> is \<^verbatim>\<open>(next_state.id << 1) | 1\<close>.
\<close>

fun encode_action :: "('st \<Rightarrow> int) \<Rightarrow> 'st action \<Rightarrow> encoded" where
  "encode_action state_id (Shift next_state) = EInt (push_bit 1 (state_id next_state) OR 1)"
| "encode_action state_id (Goto next_state) = EInt (push_bit 1 (state_id next_state))"
| "encode_action state_id (Reduce lhs len_rhs) = EPair (name lhs) len_rhs"
| "encode_action state_id Accept = EInt (- 1)"

text \<open>
  The decoder a consumer of the table can write. It reads the encoded value alone; the
  class of the keying symbol is not needed to tell a shift (odd) from a goto (even).
  A decoded action points to a state id, and a reduction to the non-terminal of that name.
\<close>

fun decode_action :: "encoded \<Rightarrow> int action option" where
  "decode_action (EPair lhs_name len_rhs) = Some (Reduce (NonTerminal lhs_name) len_rhs)"
| "decode_action (EInt v) =
     (if v = - 1 then Some Accept
      else if v < 0 then None
      else if v AND 1 = 1 then Some (Shift (drop_bit 1 v))
      else Some (Goto (drop_bit 1 v)))"

text \<open>
  What the table builder can put in a cell: an action whose state has a non-negative id
  (ids are positions in the list of states), and a reduction to a non-terminal.
\<close>

fun table_action :: "('st \<Rightarrow> int) \<Rightarrow> 'st action \<Rightarrow> bool" where
  "table_action state_id (Shift s) = (0 \<le> state_id s)"
| "table_action state_id (Goto s) = (0 \<le> state_id s)"
| "table_action state_id (Reduce lhs k) = is_NonTerminal lhs"
| "table_action state_id Accept = True"

section \<open>Properties of expansions\<close>

lemma count_EMPTY_le: "count_EMPTY xs \<le> length xs"
  by (simp add: count_EMPTY_def)

lemma Expansion_len_filter:
  "Expansion_len xs = int (length (filter (\<lambda>s. \<not> Symbol_eq s EMPTY) xs))"
proof -
  have "length xs = length (filter (\<lambda>s. Symbol_eq s EMPTY) xs)
          + length (filter (\<lambda>s. \<not> Symbol_eq s EMPTY) xs)"
    by (rule sum_length_filter_compl [symmetric])
  then show ?thesis
    by (simp add: Expansion_len_def count_EMPTY_def)
qed

lemma Symbol_eq_EMPTY_self: "Symbol_eq EMPTY EMPTY"
  by (simp add: Symbol_eq_def)



section \<open>Round trip of the serialised actions\<close>

lemma Shift_code: "push_bit 1 (j::int) OR 1 = 2 * j + 1"
  by (simp add: push_bit_eq_mult or_one_eq mult.commute)

lemma Goto_code: "push_bit 1 (j::int) = 2 * j"
  by (simp add: push_bit_eq_mult)

lemma decode_odd: "0 \<le> j \<Longrightarrow> decode_action (EInt (2 * j + 1)) = Some (Shift j)"
proof -
  assume j: "0 \<le> j"
  have a: "(2 * j + 1) AND 1 = 1" by (simp add: and_one_eq)
  have d: "drop_bit 1 (2 * j + 1) = j" by (simp add: drop_bit_eq_div)
  have n: "2 * j + 1 \<noteq> - 1" "\<not> 2 * j + 1 < 0" using j by arith+
  show ?thesis unfolding decode_action.simps using a d n by presburger
qed

lemma decode_even: "0 \<le> j \<Longrightarrow> decode_action (EInt (2 * j)) = Some (Goto j)"
proof -
  assume j: "0 \<le> j"
  have a: "(2 * j) AND 1 \<noteq> 1" by (simp add: and_one_eq)
  have d: "drop_bit 1 (2 * j) = j" by (simp add: drop_bit_eq_div)
  have n: "2 * j \<noteq> - 1" "\<not> 2 * j < 0" using j by arith+
  show ?thesis unfolding decode_action.simps using a d n by presburger
qed

text \<open>
  C4. Every action the table can hold (its state has a non-negative id, its reduction
  is to a non-terminal) is recovered from its encoded value: the same variant, with the
  id of the state it points to, or the left-hand side and the length of the reduction.
  The decoder reads the encoded value only, so the encoding is injective on these
  actions.
\<close>

theorem encode_action_round_trip:
  "table_action state_id a \<Longrightarrow>
     decode_action (encode_action state_id a) = Some (map_action state_id a)"
proof (cases a)
  case (Shift s)
  assume "table_action state_id a"
  with Shift have j: "0 \<le> state_id s" by simp
  have "encode_action state_id a = EInt (2 * state_id s + 1)"
    unfolding Shift encode_action.simps Shift_code ..
  then have "decode_action (encode_action state_id a) = Some (Shift (state_id s))"
    by (simp only: decode_odd [OF j])
  also have "\<dots> = Some (map_action state_id a)"
    by (simp add: Shift)
  finally show ?thesis .
next
  case (Goto s)
  assume "table_action state_id a"
  with Goto have j: "0 \<le> state_id s" by simp
  have "encode_action state_id a = EInt (2 * state_id s)"
    unfolding Goto encode_action.simps Goto_code ..
  then have "decode_action (encode_action state_id a) = Some (Goto (state_id s))"
    by (simp only: decode_even [OF j])
  also have "\<dots> = Some (map_action state_id a)"
    by (simp add: Goto)
  finally show ?thesis .
next
  case (Reduce lhs k)
  assume "table_action state_id a"
  with Reduce show ?thesis by (cases lhs) simp_all
next
  case Accept
  then show ?thesis by simp
qed

theorem encode_action_round_trip_witness:
  "table_action int (Shift (3::nat))
   \<and> decode_action (encode_action int (Shift (3::nat))) = Some (Shift 3)
   \<and> table_action int (Goto (3::nat))
   \<and> decode_action (encode_action int (Goto (3::nat))) = Some (Goto 3)
   \<and> table_action int (Reduce (NonTerminal ''E'') 3 :: nat action)
   \<and> decode_action (encode_action int (Reduce (NonTerminal ''E'') 3 :: nat action))
       = Some (Reduce (NonTerminal ''E'') 3)
   \<and> decode_action (encode_action int (Accept :: nat action)) = Some Accept"
  using encode_action_round_trip [of int "Shift 3"]
    encode_action_round_trip [of int "Goto 3"]
    encode_action_round_trip [of int "Reduce (NonTerminal ''E'') 3"]
    encode_action_round_trip [of int Accept]
  by simp

section \<open>The tokenizer (tokenizer/tokenizer.py)\<close>

text \<open>
  A token carries its type, its lexeme and its location. The tokens the loop builds are
  fresh \<^verbatim>\<open>Terminal(type, lexeme, loc)\<close> objects; the last thing the generator yields is the
  one marker object \<^verbatim>\<open>EOF\<close> of the grammar module, whose name is \<^verbatim>\<open>eof\<close>.
\<close>

record Loc =
  loc_filename :: string
  loc_line :: int
  loc_col :: int
  loc_offset :: int

datatype token = Token string string Loc | EOF_token

fun token_type :: "token \<Rightarrow> string" where
  "token_type (Token ty lexeme pos) = ty"
| "token_type EOF_token = name EOF"

text \<open>The exceptions the tokenizer can raise.\<close>

datatype error = ValueError | IndexError | AssertionError

text \<open>
  A character of the text is a \<open>char\<close>. \<^verbatim>\<open>s[i:]\<close> and \<^verbatim>\<open>s[:i]\<close> never raise: a negative
  index counts from the end and is clamped. \<^verbatim>\<open>s[i]\<close> raises \<^verbatim>\<open>IndexError\<close> out of range.
\<close>

definition newline :: char where
  "newline = CHR 0x0A"

definition slice_from :: "string \<Rightarrow> int \<Rightarrow> string" where
  "slice_from s i = (if i < 0 then drop (nat (int (length s) + i)) s else drop (nat i) s)"

definition slice_to :: "string \<Rightarrow> int \<Rightarrow> string" where
  "slice_to s i = (if i < 0 then take (nat (int (length s) + i)) s else take (nat i) s)"

definition subscript :: "string \<Rightarrow> int \<Rightarrow> error + char" where
  "subscript s i =
     (let n = int (length s) in
      if 0 \<le> i \<and> i < n then Inr (s ! nat i)
      else if - n \<le> i \<and> i < 0 then Inr (s ! nat (n + i))
      else Inl IndexError)"

text \<open>\<^verbatim>\<open>str.index(c)\<close>: the first position of \<open>c\<close>, or \<^verbatim>\<open>ValueError\<close>; it never returns -1.\<close>

fun str_index :: "string \<Rightarrow> char \<Rightarrow> error + int" where
  "str_index [] c = Inl ValueError"
| "str_index (x # xs) c =
     (if x = c then Inr 0
      else (case str_index xs c of Inl e \<Rightarrow> Inl e | Inr i \<Rightarrow> Inr (i + 1)))"

text \<open>\<^verbatim>\<open>str.isspace\<close> on one character, for the ASCII range.\<close>

definition isspace :: "char \<Rightarrow> bool" where
  "isspace c = (c \<in> set [CHR 0x09, CHR 0x0A, CHR 0x0B, CHR 0x0C, CHR 0x0D,
                          CHR 0x1C, CHR 0x1D, CHR 0x1E, CHR 0x1F, CHR 0x20])"

text \<open>\<^verbatim>\<open>str.strip()\<close>.\<close>

definition strip :: "string \<Rightarrow> string" where
  "strip s = rev (dropWhile isspace (rev (dropWhile isspace s)))"

text \<open>
  The three number patterns the tokenizer tries, and the regular-expression engine:
  \<open>re_number r s\<close> is \<^verbatim>\<open>group(0)\<close> of \<^verbatim>\<open>re.match("^" + r, s)\<close>, and \<open>re_word s\<close> that of
  \<^verbatim>\<open>re.match(r"\b\w+\b", s)\<close>. The engine is a parameter.
\<close>

datatype number_regex = Imagnumber | Floatnumber | Intnumber

record regex_engine =
  re_number :: "number_regex \<Rightarrow> string \<Rightarrow> string option"
  re_word :: "string \<Rightarrow> string option"

text \<open>The fields of \<^verbatim>\<open>Tokenizer\<close>; \<^verbatim>\<open>named_tokens\<close> is the dict, in insertion order.\<close>

record Tokenizer =
  filename :: string
  named_tokens :: "(string \<times> string) list"
  code :: string
  linenum :: int
  column :: int
  code_offset :: int

text \<open>\<^verbatim>\<open>__init__\<close>: the text gets a newline appended.\<close>

definition Tokenizer_init :: "string \<Rightarrow> (string \<times> string) list \<Rightarrow> string \<Rightarrow> Tokenizer" where
  "Tokenizer_init code0 named filename0 =
     \<lparr>filename = filename0, named_tokens = named, code = code0 @ [newline],
      linenum = 0, column = 0, code_offset = 0\<rparr>"

definition to_next_char :: "Tokenizer \<Rightarrow> Tokenizer" where
  "to_next_char self = self\<lparr>code_offset := code_offset self + 1, column := column self + 1\<rparr>"

definition skip_n_chars :: "int \<Rightarrow> Tokenizer \<Rightarrow> Tokenizer" where
  "skip_n_chars n self = self\<lparr>code_offset := code_offset self + n, column := column self + n\<rparr>"

definition current_char :: "Tokenizer \<Rightarrow> error + char" where
  "current_char self = subscript (code self) (code_offset self)"

definition remaining_code :: "Tokenizer \<Rightarrow> string" where
  "remaining_code self = slice_from (code self) (code_offset self)"

definition current_loc :: "Tokenizer \<Rightarrow> Loc" where
  "current_loc self =
     \<lparr>loc_filename = filename self, loc_line = linenum self,
      loc_col = column self, loc_offset = code_offset self\<rparr>"

text \<open>
  \<^verbatim>\<open>_match_number\<close>: the token type is \<^verbatim>\<open>float\<close> for the float pattern, \<^verbatim>\<open>integer\<close> for
  the integer pattern and \<^verbatim>\<open>None\<close> for any other pattern, and a \<^verbatim>\<open>None\<close> type returns \<^verbatim>\<open>None\<close>.
\<close>

definition match_number :: "regex_engine \<Rightarrow> Tokenizer \<Rightarrow> number_regex \<Rightarrow> (string \<times> string) option" where
  "match_number re self number_regex =
     (case re_number re number_regex (slice_from (code self) (code_offset self)) of
        None \<Rightarrow> None
      | Some lexeme \<Rightarrow>
          (if number_regex = Floatnumber then Some (lexeme, ''float'')
           else if number_regex = Intnumber then Some (lexeme, ''integer'')
           else None))"

text \<open>\<^verbatim>\<open>a or b\<close> on optional results: a returned pair is never falsy.\<close>

definition or_else :: "'a option \<Rightarrow> 'a option \<Rightarrow> 'a option" where
  "or_else a b = (case a of None \<Rightarrow> b | Some x \<Rightarrow> Some x)"

text \<open>\<^verbatim>\<open>_match_number_or_unknown\<close>.\<close>

definition match_number_or_unknown ::
    "regex_engine \<Rightarrow> Tokenizer \<Rightarrow> Loc \<Rightarrow> error + (token \<times> Tokenizer)" where
  "match_number_or_unknown re self pos =
     (case or_else (match_number re self Imagnumber)
             (or_else (match_number re self Floatnumber) (match_number re self Intnumber)) of
        None \<Rightarrow>
          (case re_word re (remaining_code self) of
             Some word_match \<Rightarrow>
               (if 1 < length word_match
                then (let lexeme = strip word_match
                      in Inr (Token ''word'' lexeme pos, skip_n_chars (int (length lexeme) - 1) self))
                else (case current_char self of
                        Inl e \<Rightarrow> Inl e
                      | Inr c \<Rightarrow> Inr (Token ''char'' [c] pos, skip_n_chars (int (length [c]) - 1) self)))
           | None \<Rightarrow>
               (case current_char self of
                  Inl e \<Rightarrow> Inl e
                | Inr c \<Rightarrow> Inr (Token ''char'' [c] pos, skip_n_chars (int (length [c]) - 1) self)))
      | Some (lexeme, ret_type) \<Rightarrow>
          Inr (Token ret_type lexeme pos, skip_n_chars (int (length lexeme) - 1) self))"

text \<open>
  \<^verbatim>\<open>handle_comment\<close>, with its explicit test of the position against -1 kept as written.
\<close>

definition handle_comment :: "Tokenizer \<Rightarrow> error + (token \<times> Tokenizer)" where
  "handle_comment self =
     (case str_index (remaining_code self) newline of
        Inl e \<Rightarrow> Inl e
      | Inr end_comment_pos \<Rightarrow>
          (if end_comment_pos = - 1 then Inl ValueError
           else (let comment = slice_to (remaining_code self) end_comment_pos;
                     token = Token ''comment'' comment (current_loc self);
                     self1 = skip_n_chars (int (length comment)) self
                 in Inr (token, self1\<lparr>linenum := linenum self1 + 1, column := - 1\<rparr>))))"

text \<open>
  Modelled from the spec: \<^verbatim>\<open>Terminal.from_token_type\<close> (the token class is not among the
  sources). The spec's token is \<open>(kind, lexeme, loc)\<close>; the lexeme of a token built from its
  type alone is not given and is left empty.
\<close>

definition from_token_type :: "string \<Rightarrow> Loc \<Rightarrow> token" where
  "from_token_type ty pos = Token ty [] pos"

text \<open>
  \<^verbatim>\<open>sorted(self._named_tokens.items(), key=lambda item: len(item[0]), reverse=True)\<close>:
  a stable sort, longest literal first.
\<close>

definition sorted_named_tokens :: "(string \<times> string) list \<Rightarrow> (string \<times> string) list" where
  "sorted_named_tokens items = sort_key (\<lambda>item. - int (length (fst item))) items"

text \<open>
  One turn of the \<^verbatim>\<open>while\<close> loop of \<^verbatim>\<open>_tokenize\<close>, up to the \<^verbatim>\<open>yield\<close>: the token and the
  tokenizer after it. The \<^verbatim>\<open>for ... else\<close> takes the first literal the remaining text
  starts with.
\<close>

definition tokenize_step ::
    "regex_engine \<Rightarrow> (string \<times> string) list \<Rightarrow> Tokenizer \<Rightarrow> error + (token \<times> Tokenizer)" where
  "tokenize_step re named self =
     (let token_location = current_loc self in
      case find (\<lambda>(matching, identifier). prefix matching (remaining_code self)) named of
        Some (matching, identifier) \<Rightarrow>
          Inr (Token identifier matching token_location,
               skip_n_chars (int (length matching) - 1) self)
      | None \<Rightarrow>
          (case current_char self of
             Inl e \<Rightarrow> Inl e
           | Inr c \<Rightarrow>
               if c \<noteq> newline \<and> isspace c
               then Inr (Token ''whitespace'' [c] token_location, self)
               else if c = CHR ''#'' then handle_comment self
               else if c = newline
               then Inr (from_token_type ''newline'' token_location,
                         self\<lparr>linenum := linenum self + 1, column := - 1\<rparr>)
               else match_number_or_unknown re self token_location))"

text \<open>
  The \<^verbatim>\<open>while\<close> loop, with the tokens yielded so far. The loop may run forever, so it
  takes fuel, one unit per turn: \<open>None\<close> is fuel spent, \<open>Inl\<close> an exception raised,
  \<open>Inr\<close> the whole stream (with \<^verbatim>\<open>EOF\<close> yielded after the loop) and the final tokenizer.
\<close>

fun tokenize_loop ::
    "nat \<Rightarrow> regex_engine \<Rightarrow> (string \<times> string) list \<Rightarrow> Tokenizer \<Rightarrow> token list
       \<Rightarrow> (error + token list \<times> Tokenizer) option" where
  "tokenize_loop 0 re named self yielded = None"
| "tokenize_loop (Suc fuel) re named self yielded =
     (if code_offset self < int (length (code self))
      then (case tokenize_step re named self of
              Inl e \<Rightarrow> Some (Inl e)
            | Inr (token, self1) \<Rightarrow>
                tokenize_loop fuel re named (to_next_char self1) (yielded @ [token]))
      else Some (Inr (yielded @ [EOF_token], self)))"

text \<open>\<^verbatim>\<open>_tokenize\<close> on a fresh tokenizer.\<close>

definition tokenize ::
    "nat \<Rightarrow> regex_engine \<Rightarrow> string \<Rightarrow> (string \<times> string) list \<Rightarrow> string
       \<Rightarrow> (error + token list \<times> Tokenizer) option" where
  "tokenize fuel re code0 named filename0 =
     tokenize_loop fuel re (sorted_named_tokens named) (Tokenizer_init code0 named filename0) []"

section \<open>The tokenizer never raises, and ends its stream with EOF\<close>

text \<open>What holds each time the \<^verbatim>\<open>while\<close> test is evaluated: the offset is not negative
  and the text ends with the newline the constructor appended.\<close>

definition loop_head :: "Tokenizer \<Rightarrow> bool" where
  "loop_head self = (0 \<le> code_offset self \<and> code self \<noteq> [] \<and> last (code self) = newline)"

lemma str_index_found:
  "c \<in> set s \<Longrightarrow> \<exists>i. str_index s c = Inr i \<and> 0 \<le> i \<and> i < int (length s)"
  by (induction s) auto

lemma loop_head_init: "loop_head (Tokenizer_init code0 named filename0)"
  by (simp add: loop_head_def Tokenizer_init_def)

lemma remaining_has_newline:
  assumes "loop_head self" "code_offset self < int (length (code self))"
  shows "newline \<in> set (remaining_code self)"
proof -
  from assms have n: "nat (code_offset self) < length (code self)" "code self \<noteq> []"
    by (auto simp: loop_head_def)
  then have "drop (nat (code_offset self)) (code self) \<noteq> []" by simp
  then have "last (drop (nat (code_offset self)) (code self)) \<in> set (drop (nat (code_offset self)) (code self))"
    by (rule last_in_set)
  moreover have "last (drop (nat (code_offset self)) (code self)) = last (code self)"
    using n by (simp add: last_drop)
  ultimately show ?thesis using assms
    by (simp add: remaining_code_def slice_from_def loop_head_def)
qed

lemma handle_comment_returns:
  assumes "loop_head self" "code_offset self < int (length (code self))"
  shows "\<exists>tok self1. handle_comment self = Inr (tok, self1) \<and> tok \<noteq> EOF_token
           \<and> code self1 = code self \<and> code_offset self \<le> code_offset self1"
proof -
  from str_index_found [OF remaining_has_newline [OF assms]]
  obtain i where i: "str_index (remaining_code self) newline = Inr i" "0 \<le> i" by blast
  then show ?thesis
    by (simp add: handle_comment_def Let_def skip_n_chars_def)
qed

lemma current_char_returns:
  assumes "loop_head self" "code_offset self < int (length (code self))"
  shows "\<exists>c. current_char self = Inr c"
  using assms by (simp add: current_char_def subscript_def loop_head_def Let_def)

lemma match_number_or_unknown_returns:
  assumes "loop_head self" "code_offset self < int (length (code self))"
  shows "\<exists>tok self1. match_number_or_unknown re self pos = Inr (tok, self1) \<and> tok \<noteq> EOF_token
           \<and> code self1 = code self \<and> code_offset self - 1 \<le> code_offset self1"
proof -
  from current_char_returns [OF assms] obtain c where c: "current_char self = Inr c" ..
  show ?thesis
    by (simp add: match_number_or_unknown_def c skip_n_chars_def Let_def
        split: option.split prod.split)
qed

lemma tokenize_step_returns:
  assumes "loop_head self" "code_offset self < int (length (code self))"
  shows "\<exists>tok self1. tokenize_step re named self = Inr (tok, self1) \<and> tok \<noteq> EOF_token
           \<and> code self1 = code self \<and> code_offset self - 1 \<le> code_offset self1"
proof (cases "find (\<lambda>(matching, identifier). prefix matching (remaining_code self)) named")
  case (Some a)
  then show ?thesis
    by (cases a) (simp add: tokenize_step_def skip_n_chars_def)
next
  case None
  from current_char_returns [OF assms] obtain c where c: "current_char self = Inr c" ..
  from handle_comment_returns [OF assms] obtain t1 s1 where
    h: "handle_comment self = Inr (t1, s1)" "t1 \<noteq> EOF_token" "code s1 = code self"
       "code_offset self \<le> code_offset s1" by blast
  from match_number_or_unknown_returns [OF assms, of re "current_loc self"] obtain t2 s2 where
    m: "match_number_or_unknown re self (current_loc self) = Inr (t2, s2)" "t2 \<noteq> EOF_token"
       "code s2 = code self" "code_offset self - 1 \<le> code_offset s2" by blast
  show ?thesis
    using None c h m by (simp add: tokenize_step_def from_token_type_def Let_def)
qed

lemma loop_head_next:
  assumes "loop_head self" "code self1 = code self" "code_offset self - 1 \<le> code_offset self1"
  shows "loop_head (to_next_char self1)"
  using assms by (simp add: loop_head_def to_next_char_def)

lemma tokenize_loop_no_exception:
  "loop_head self \<Longrightarrow> tokenize_loop fuel re named self yielded \<noteq> Some (Inl e)"
proof (induction fuel arbitrary: self yielded)
  case 0
  then show ?case by simp
next
  case (Suc fuel)
  show ?case
  proof (cases "code_offset self < int (length (code self))")
    case True
    from tokenize_step_returns [OF Suc.prems True, of re named] obtain tok self1 where
      s: "tokenize_step re named self = Inr (tok, self1)" "code self1 = code self"
         "code_offset self - 1 \<le> code_offset self1" by blast
    from loop_head_next [OF Suc.prems s(2,3)] have "loop_head (to_next_char self1)" .
    from Suc.IH [OF this] show ?thesis using True s(1) by simp
  next
    case False
    then show ?thesis by simp
  qed
qed

text \<open>
  C10. For every input string (and every table of named tokens, every engine, every
  number of loop turns) the tokenizer raises nothing: the text ends with the appended
  newline, so whenever \<^verbatim>\<open>handle_comment\<close> runs, \<^verbatim>\<open>str.index\<close> finds a newline in the
  remaining text, and its explicit \<^verbatim>\<open>ValueError\<close> branch is never taken; no subscript is
  out of range either.
\<close>

theorem handle_comment_never_raises:
  "tokenize fuel re code0 named filename0 \<noteq> Some (Inl e)"
  unfolding tokenize_def by (rule tokenize_loop_no_exception [OF loop_head_init])

text \<open>
  What Python's \<^verbatim>\<open>re\<close> gives for the patterns of the source: a match of a number pattern
  is not empty, and a match of \<^verbatim>\<open>\b\w+\b\<close> holds word characters, so stripping it leaves
  something. And a table of named tokens with no empty literal.
\<close>

definition regex_engine_ok :: "regex_engine \<Rightarrow> bool" where
  "regex_engine_ok re =
     ((\<forall>r s lexeme. re_number re r s = Some lexeme \<longrightarrow> lexeme \<noteq> [])
      \<and> (\<forall>s w. re_word re s = Some w \<longrightarrow> strip w \<noteq> []))"

definition literals_ok :: "(string \<times> string) list \<Rightarrow> bool" where
  "literals_ok named = ([] \<notin> set (map fst named))"

lemma literals_ok_sorted: "literals_ok named \<Longrightarrow> literals_ok (sorted_named_tokens named)"
  by (simp add: literals_ok_def sorted_named_tokens_def)

lemma match_number_or_unknown_advances:
  assumes "regex_engine_ok re" "match_number_or_unknown re self pos = Inr (tok, self1)"
  shows "code_offset self \<le> code_offset self1"
proof -
  have n: "\<And>r ty. match_number re self r \<noteq> Some ([], ty)"
    using assms(1)
    by (auto simp: match_number_def regex_engine_ok_def split: option.splits if_splits)
  have w: "\<And>s w. re_word re s = Some w \<Longrightarrow> strip w \<noteq> []"
    using assms(1) by (auto simp: regex_engine_ok_def)
  have pos: "\<And>l::string. l \<noteq> [] \<Longrightarrow> 0 \<le> int (length l) - 1"
    by (simp add: Suc_le_eq)
  show ?thesis
  proof (cases "or_else (match_number re self Imagnumber)
             (or_else (match_number re self Floatnumber) (match_number re self Intnumber))")
    case (Some a)
    obtain l ty where a: "a = (l, ty)" by (cases a)
    from Some a n have "l \<noteq> []"
      by (auto simp: or_else_def split: option.splits)
    from pos [OF this] Some a assms(2) show ?thesis
      by (auto simp: match_number_or_unknown_def skip_n_chars_def)
  next
    case None
    show ?thesis
    proof (cases "re_word re (remaining_code self)")
      case N: None
      with None assms(2) show ?thesis
        by (auto simp: match_number_or_unknown_def skip_n_chars_def split: sum.splits)
    next
      case (Some wm)
      from pos [OF w [OF Some]] None Some assms(2) show ?thesis
        by (auto simp: match_number_or_unknown_def skip_n_chars_def Let_def
            split: sum.splits if_splits)
    qed
  qed
qed

lemma tokenize_step_advances:
  assumes "regex_engine_ok re" "literals_ok named" "loop_head self"
    "code_offset self < int (length (code self))"
    "tokenize_step re named self = Inr (tok, self1)"
  shows "code_offset self \<le> code_offset self1"
proof (cases "find (\<lambda>(matching, identifier). prefix matching (remaining_code self)) named")
  case (Some a)
  obtain m i where a: "a = (m, i)" by (cases a)
  from Some a have "(m, i) \<in> set named" by (metis find_Some_iff nth_mem)
  with assms(2) have "m \<noteq> []" by (force simp: literals_ok_def)
  then have "1 \<le> int (length m)" by (simp add: Suc_le_eq)
  with Some a assms(5) show ?thesis
    by (auto simp: tokenize_step_def skip_n_chars_def)
next
  case None
  from handle_comment_returns [OF assms(3,4)] obtain t1 s1 where
    h: "handle_comment self = Inr (t1, s1)" "code_offset self \<le> code_offset s1" by blast
  show ?thesis
    using None assms(5) h match_number_or_unknown_advances [OF assms(1)]
    by (auto simp: tokenize_step_def Let_def split: sum.splits if_splits)
qed

lemma tokenize_loop_more_fuel:
  "tokenize_loop fuel re named self yielded = Some r
     \<Longrightarrow> tokenize_loop (fuel + k) re named self yielded = Some r"
proof (induction fuel arbitrary: self yielded)
  case 0
  then show ?case by simp
next
  case (Suc fuel)
  then show ?case
    by (auto split: if_splits sum.splits prod.splits)
qed

lemma tokenize_loop_returns:
  assumes "regex_engine_ok re" "literals_ok named"
  shows "loop_head self \<Longrightarrow> EOF_token \<notin> set yielded \<Longrightarrow>
     \<exists>toks final.
        tokenize_loop (Suc (nat (int (length (code self)) - code_offset self))) re named self yielded
          = Some (Inr (toks, final))
        \<and> last toks = EOF_token \<and> count_list toks EOF_token = 1
        \<and> code final = code self \<and> int (length (code final)) \<le> code_offset final"
proof (induction "nat (int (length (code self)) - code_offset self)" arbitrary: self yielded
    rule: less_induct)
  case less
  show ?case
  proof (cases "code_offset self < int (length (code self))")
    case False
    then show ?thesis using less.prems(2) by simp
  next
    case True
    from tokenize_step_returns [OF less.prems(1) True, of re named] obtain tok self1 where
      s: "tokenize_step re named self = Inr (tok, self1)" "tok \<noteq> EOF_token"
         "code self1 = code self" "code_offset self - 1 \<le> code_offset self1" by blast
    from tokenize_step_advances [OF assms less.prems(1) True s(1)]
    have adv: "code_offset self \<le> code_offset self1" .
    let ?next = "to_next_char self1"
    have c: "code ?next = code self" "code_offset ?next = code_offset self1 + 1"
      using s(3) by (simp_all add: to_next_char_def)
    have lh: "loop_head ?next" by (rule loop_head_next [OF less.prems(1) s(3,4)])
    have dec: "nat (int (length (code ?next)) - code_offset ?next)
                 < nat (int (length (code self)) - code_offset self)"
      using c adv True by simp
    have y: "EOF_token \<notin> set (yielded @ [tok])" using less.prems(2) s(2) by simp
    from less.hyps [OF dec lh y] obtain toks final where
      r: "tokenize_loop (Suc (nat (int (length (code ?next)) - code_offset ?next))) re named ?next
            (yielded @ [tok]) = Some (Inr (toks, final))"
         "last toks = EOF_token" "count_list toks EOF_token = 1"
         "code final = code ?next" "int (length (code final)) \<le> code_offset final" by blast
    obtain k where k: "nat (int (length (code self)) - code_offset self)
        = Suc (nat (int (length (code ?next)) - code_offset ?next)) + k"
      using dec by (metis Suc_leI le_Suc_ex)
    from tokenize_loop_more_fuel [OF r(1), of k] k
    have "tokenize_loop (nat (int (length (code self)) - code_offset self)) re named ?next
            (yielded @ [tok]) = Some (Inr (toks, final))" by simp
    then have "tokenize_loop (Suc (nat (int (length (code self)) - code_offset self))) re named self
            yielded = Some (Inr (toks, final))"
      using True s(1) by simp
    with r c(1) show ?thesis by simp
  qed
qed

text \<open>
  C8. For every input string, when no literal of the table of named tokens is
  empty, the tokenizer returns after at most one loop turn per character: the stream is
  a finite list, it raises nothing, its last element is the \<^verbatim>\<open>EOF\<close> marker (of kind
  \<^verbatim>\<open>eof\<close>), \<^verbatim>\<open>EOF\<close> occurs in it exactly once, and it is yielded when the offset has
  reached the end of the text. More fuel gives the same stream. The one way out is a
  table with the empty string as a key, shown below: there the code does not do what
  its own comment says.
\<close>

theorem tokenize_ends_with_EOF:
  assumes "regex_engine_ok re" and "literals_ok named"
  shows "\<exists>toks final.
      tokenize (Suc (Suc (length code0))) re code0 named filename0 = Some (Inr (toks, final))
      \<and> last toks = EOF_token \<and> token_type (last toks) = ''eof''
      \<and> count_list toks EOF_token = 1
      \<and> code final = code0 @ [newline]
      \<and> int (length (code final)) \<le> code_offset final
      \<and> (\<forall>k. tokenize (Suc (Suc (length code0)) + k) re code0 named filename0
                = Some (Inr (toks, final)))"
proof -
  let ?init = "Tokenizer_init code0 named filename0"
  have f: "Suc (nat (int (length (code ?init)) - code_offset ?init)) = Suc (Suc (length code0))"
    by (simp add: Tokenizer_init_def)
  from tokenize_loop_returns [OF assms(1) literals_ok_sorted [OF assms(2)] loop_head_init, of "[]" code0 named filename0]
  obtain toks final where
    r: "tokenize_loop (Suc (Suc (length code0))) re (sorted_named_tokens named) ?init [] = Some (Inr (toks, final))"
       "last toks = EOF_token" "count_list toks EOF_token = 1"
       "code final = code ?init" "int (length (code final)) \<le> code_offset final"
    unfolding f by auto
  have "\<forall>k. tokenize (Suc (Suc (length code0)) + k) re code0 named filename0 = Some (Inr (toks, final))"
    unfolding tokenize_def using tokenize_loop_more_fuel [OF r(1)] by blast
  with r show ?thesis
    by (auto simp: tokenize_def Tokenizer_init_def EOF_def)
qed


text \<open>A small engine for a concrete run: the integer pattern matches the digit 7.\<close>

definition seven_engine :: regex_engine where
  "seven_engine =
     \<lparr>re_number = (\<lambda>r s. case s of [] \<Rightarrow> None
                          | c # cs \<Rightarrow> if r = Intnumber \<and> c = CHR ''7'' then Some [c] else None),
      re_word = (\<lambda>s. None)\<rparr>"

lemma seven_engine_ok: "regex_engine_ok seven_engine"
  by (auto simp: regex_engine_ok_def seven_engine_def split: list.splits if_splits)

theorem tokenize_ends_with_EOF_witness:
  "regex_engine_ok seven_engine \<and> literals_ok [(''a'', ''A'')]
   \<and> (\<exists>toks final.
      tokenize (Suc (Suc (length ''a 7#c''))) seven_engine ''a 7#c'' [(''a'', ''A'')] ''f'' = Some (Inr (toks, final))
      \<and> last toks = EOF_token \<and> token_type (last toks) = ''eof''
      \<and> count_list toks EOF_token = 1
      \<and> code final = ''a 7#c'' @ [newline]
      \<and> int (length (code final)) \<le> code_offset final
      \<and> (\<forall>k. tokenize (Suc (Suc (length ''a 7#c'')) + k) seven_engine ''a 7#c'' [(''a'', ''A'')] ''f''
                = Some (Inr (toks, final))))"
proof -
  have l: "literals_ok [(''a'', ''A'')]" by (simp add: literals_ok_def)
  from tokenize_ends_with_EOF [OF seven_engine_ok l, of "''a 7#c''" "''f''"] seven_engine_ok l
  show ?thesis by blast
qed

text \<open>
  With an empty literal in the table \<^verbatim>\<open>startswith\<close> always holds, the first branch
  skips \<^verbatim>\<open>len(matching) - 1 = -1\<close> characters and \<^verbatim>\<open>_to_next_char\<close> brings the loop back to
  the same tokenizer: the \<^verbatim>\<open>while\<close> loop never ends and the \<^verbatim>\<open>yield EOF\<close> after it, under
  the comment \<^verbatim>\<open>we must always end our stream of tokens with an EOF token\<close>, is never
  reached, whatever the number of loop turns allowed.
\<close>

lemma empty_literal_spins: "tokenize_loop fuel re [([], ident)] (Tokenizer_init code0 named filename0) yielded = None"
proof (induction fuel arbitrary: yielded)
  case 0
  show ?case by simp
next
  case (Suc fuel)
  have "to_next_char (skip_n_chars (- 1) (Tokenizer_init code0 named filename0))
          = Tokenizer_init code0 named filename0"
    by (simp add: to_next_char_def skip_n_chars_def Tokenizer_init_def)
  then show ?case using Suc
    by (simp add: tokenize_step_def Tokenizer_init_def)
qed

theorem tokenize_empty_literal_counterexample:
  "\<not> (\<exists>fuel r. tokenize fuel \<lparr>re_number = (\<lambda>r s. None), re_word = (\<lambda>s. None)\<rparr>
                   ''x'' [([], ''nothing'')] ''f'' = Some r)"
  by (simp add: tokenize_def sorted_named_tokens_def empty_literal_spins)

section \<open>LR(1) items and the closure of an item set (lr/lr1.py)\<close>

text \<open>
  \<^verbatim>\<open>class LR1Item(NamedTuple)\<close>: the left-hand side, the position of the dot, the rule and
  the lookahead; \<^verbatim>\<open>Rule\<close>, which \<^verbatim>\<open>lr1.py\<close> imports from the grammar module, is its list of
  symbols with the epsilon-skipping \<^verbatim>\<open>__len__\<close>, the class \<^verbatim>\<open>Expansion\<close> above. The dot starts
  at 0 and is only ever incremented. Items are compared
  with the equality of HOL; it is the tuple equality of Python on symbols whose class is
  determined by their name.
\<close>

datatype LR1Item = LR1Item (item_name: symbol) (dot: nat) (rule: Expansion) (lookahead: symbol)

definition advance :: "LR1Item \<Rightarrow> LR1Item" where
  "advance self = LR1Item (item_name self) (dot self + 1) (rule self) (lookahead self)"

text \<open>\<^verbatim>\<open>completed\<close>: \<^verbatim>\<open>self.dot >= len(self.rule)\<close>, with the length that skips epsilon.\<close>

definition completed :: "LR1Item \<Rightarrow> bool" where
  "completed self = (Expansion_len (rule self) \<le> int (dot self))"

text \<open>
  The grammar class is not among the sources. What the table builder reads from a
  grammar is taken as given: the start symbol, \<^verbatim>\<open>grammar[x]\<close> (the alternatives of
  \<open>x\<close>, in order), \<^verbatim>\<open>first_sentential_form\<close> (the collection it returns, in the order it
  is iterated), and the two sets of symbols.
\<close>

record grammar =
  start_symbol :: symbol
  rules_of :: "symbol \<Rightarrow> Expansion list"
  first_sentential_form :: "symbol list \<Rightarrow> symbol list"
  terminals :: "symbol set"
  non_terminals :: "symbol set"

text \<open>
  Modelled from the spec: \<^verbatim>\<open>LRState\<close> (lr/core.py is not among the sources). The spec's
  state is a set of items. It is the list of its items in insertion order; \<^verbatim>\<open>append\<close>
  adds an item that is not yet in the state; \<^verbatim>\<open>copy\<close> is the same list;
  \<^verbatim>\<open>yield_unfinished\<close> walks the list by position and yields the items that are not
  completed, so that, as for any Python list, it also reaches the items appended during
  the walk.
\<close>

type_synonym LRState = "LR1Item list"

definition LRState_append :: "LRState \<Rightarrow> LR1Item \<Rightarrow> LRState" where
  "LRState_append items it = (if it \<in> set items then items else items @ [it])"

text \<open>
  The two inner \<^verbatim>\<open>for\<close> loops of \<^verbatim>\<open>closure\<close> build, for the non-terminal \<open>x\<close> after the
  dot, one item per alternative \<open>gamma\<close> of \<open>x\<close> and per \<open>w\<close> in
  \<^verbatim>\<open>first_sentential_form(beta + [lookahead])\<close>, in this order.
\<close>

definition closure_items :: "grammar \<Rightarrow> symbol \<Rightarrow> symbol list \<Rightarrow> symbol \<Rightarrow> LR1Item list" where
  "closure_items g x beta la =
     concat (map (\<lambda>gamma. map (\<lambda>w. LR1Item x 0 gamma w) (first_sentential_form g (beta @ [la])))
               (rules_of g x))"

text \<open>
  One pass of the \<^verbatim>\<open>for\<close> loop of \<^verbatim>\<open>closure\<close>, from position \<open>k\<close> of the list on:
  the items after the pass, and the value of \<^verbatim>\<open>changing\<close>. As in the source, \<^verbatim>\<open>changing\<close>
  is assigned (not accumulated) at every unfinished item with a non-terminal after the
  dot. A pass that never ends has no result.
\<close>

partial_function (option) closure_for ::
    "grammar \<Rightarrow> LRState \<Rightarrow> nat \<Rightarrow> bool \<Rightarrow> (LRState \<times> bool) option" where
  "closure_for g items k changing =
     (if k < length items
      then (let it = items ! k in
            if completed it then closure_for g items (Suc k) changing
            else (let x = rule it ! dot it; beta = drop (dot it + 1) (rule it) in
                  if is_NonTerminal x
                  then (let initial_size = length items;
                            items1 = foldl LRState_append items
                                       (closure_items g x beta (lookahead it))
                        in closure_for g items1 (Suc k) (length items1 \<noteq> initial_size))
                  else closure_for g items (Suc k) changing))
      else Some (items, changing))"

text \<open>The \<^verbatim>\<open>while changing\<close> loop: a pass with \<^verbatim>\<open>changing = False\<close>, repeated while it sets it.\<close>

partial_function (option) closure_while :: "grammar \<Rightarrow> LRState \<Rightarrow> LRState option" where
  "closure_while g items =
     (case closure_for g items 0 False of
        None \<Rightarrow> None
      | Some (items1, changing) \<Rightarrow> if changing then closure_while g items1 else Some items1)"

declare closure_for.simps [code] closure_while.simps [code]

text \<open>
  The body of \<^verbatim>\<open>closure\<close>, the function under the \<^verbatim>\<open>@cache\<close> decorator: what a call
  computes when the memo table has no entry for its argument. The decorated function,
  with its memo table, is \<open>cached_closure\<close> below.
\<close>

definition closure :: "grammar \<Rightarrow> LRState \<Rightarrow> LRState option" where
  "closure g configuration_set = closure_while g configuration_set"

text \<open>
  The rule of the spec for the closure: a set of items is closed when, for each of its
  items \<open>(A \<rightarrow> \<alpha> \<cdot> B \<beta>, a)\<close> with \<open>B\<close> a non-terminal, each production \<open>B \<rightarrow> \<gamma>\<close> and
  each \<open>b\<close> in \<open>FIRST*(\<beta> a)\<close>, it holds \<open>(B \<rightarrow> \<cdot> \<gamma>, b)\<close>.
\<close>

definition closed_under_rule :: "grammar \<Rightarrow> LR1Item set \<Rightarrow> bool" where
  "closed_under_rule g S =
     (\<forall>A d r a gamma b.
        LR1Item A d r a \<in> S \<and> \<not> completed (LR1Item A d r a) \<and> is_NonTerminal (r ! d)
        \<and> gamma \<in> set (rules_of g (r ! d))
        \<and> b \<in> set (first_sentential_form g (drop (Suc d) r @ [a]))
        \<longrightarrow> LR1Item (r ! d) 0 gamma b \<in> S)"

text \<open>
  A finite grammar: finitely many symbols have alternatives, and the lookaheads that
  \<^verbatim>\<open>first_sentential_form\<close> returns for \<open>\<beta> a\<close> are \<open>a\<close> or come from a finite set \<open>T\<close>.
\<close>

definition finite_grammar :: "grammar \<Rightarrow> symbol set \<Rightarrow> bool" where
  "finite_grammar g T =
     (finite T \<and> finite {x. rules_of g x \<noteq> []}
      \<and> (\<forall>beta a. set (first_sentential_form g (beta @ [a])) \<subseteq> insert a T))"

section \<open>The body of the closure computes the least fixed point\<close>

text \<open>The items one item adds in \<^verbatim>\<open>closure\<close>: none unless it is unfinished with a
  non-terminal after the dot.\<close>

definition expands_to :: "grammar \<Rightarrow> LR1Item \<Rightarrow> LR1Item set" where
  "expands_to g it =
     (if \<not> completed it \<and> is_NonTerminal (rule it ! dot it)
      then set (closure_items g (rule it ! dot it) (drop (dot it + 1) (rule it)) (lookahead it))
      else {})"

lemma closed_under_rule_iff:
  "closed_under_rule g S \<longleftrightarrow> (\<forall>it \<in> S. expands_to g it \<subseteq> S)"
proof
  assume c: "closed_under_rule g S"
  show "\<forall>it \<in> S. expands_to g it \<subseteq> S"
  proof (intro ballI subsetI)
    fix it n assume it: "it \<in> S" and n: "n \<in> expands_to g it"
    obtain A d r a where [simp]: "it = LR1Item A d r a" by (cases it)
    from n have u: "\<not> completed it" "is_NonTerminal (r ! d)"
      by (auto simp: expands_to_def split: if_splits)
    with n obtain gamma b where "n = LR1Item (r ! d) 0 gamma b" "gamma \<in> set (rules_of g (r ! d))"
      "b \<in> set (first_sentential_form g (drop (Suc d) r @ [a]))"
      by (auto simp: expands_to_def closure_items_def)
    with c it u show "n \<in> S" unfolding closed_under_rule_def by auto
  qed
next
  assume c: "\<forall>it \<in> S. expands_to g it \<subseteq> S"
  show "closed_under_rule g S"
    unfolding closed_under_rule_def
  proof (intro allI impI)
    fix A d r a gamma b
    assume h: "LR1Item A d r a \<in> S \<and> \<not> completed (LR1Item A d r a) \<and> is_NonTerminal (r ! d)
        \<and> gamma \<in> set (rules_of g (r ! d))
        \<and> b \<in> set (first_sentential_form g (drop (Suc d) r @ [a]))"
    then have "LR1Item (r ! d) 0 gamma b \<in> expands_to g (LR1Item A d r a)"
      by (auto simp: expands_to_def closure_items_def)
    with c h show "LR1Item (r ! d) 0 gamma b \<in> S" by blast
  qed
qed

lemma foldl_LRState_append:
  "\<exists>zs. foldl LRState_append xs ys = xs @ zs \<and> distinct zs \<and> set zs = set ys - set xs"
proof (induction ys arbitrary: xs)
  case Nil
  show ?case by simp
next
  case (Cons y ys)
  show ?case
  proof (cases "y \<in> set xs")
    case True
    from Cons.IH [of xs] obtain zs where
      "foldl LRState_append xs ys = xs @ zs" "distinct zs" "set zs = set ys - set xs" by blast
    moreover have "LRState_append xs y = xs" using True by (simp add: LRState_append_def)
    ultimately show ?thesis using True by auto
  next
    case False
    from Cons.IH [of "xs @ [y]"] obtain zs where
      z: "foldl LRState_append (xs @ [y]) ys = (xs @ [y]) @ zs" "distinct zs"
         "set zs = set ys - set (xs @ [y])" by blast
    have "LRState_append xs y = xs @ [y]" using False by (simp add: LRState_append_def)
    then have "foldl LRState_append xs (y # ys) = xs @ (y # zs)"
      using z(1) by simp
    moreover have "distinct (y # zs)" using z(2,3) by auto
    moreover have "set (y # zs) = set (y # ys) - set xs" using z(3) False by auto
    ultimately show ?thesis by blast
  qed
qed

lemma closure_for_step_done:
  "\<not> k < length items \<Longrightarrow> closure_for g items k ch = Some (items, ch)"
  by (subst closure_for.simps) simp

lemma closure_for_step_skip:
  "k < length items \<Longrightarrow> expands_to g (items ! k) = {} \<Longrightarrow>
   completed (items ! k) \<or> \<not> is_NonTerminal (rule (items ! k) ! dot (items ! k)) \<Longrightarrow>
     closure_for g items k ch = closure_for g items (Suc k) ch"
  by (subst closure_for.simps) (auto simp: Let_def)

lemma closure_for_step_expand:
  "k < length items \<Longrightarrow> \<not> completed (items ! k) \<Longrightarrow>
   is_NonTerminal (rule (items ! k) ! dot (items ! k)) \<Longrightarrow>
     closure_for g items k ch =
       closure_for g
         (foldl LRState_append items
            (closure_items g (rule (items ! k) ! dot (items ! k))
               (drop (dot (items ! k) + 1) (rule (items ! k))) (lookahead (items ! k))))
         (Suc k)
         (length (foldl LRState_append items
            (closure_items g (rule (items ! k) ! dot (items ! k))
               (drop (dot (items ! k) + 1) (rule (items ! k))) (lookahead (items ! k)))) \<noteq> length items)"
  by (subst closure_for.simps) (simp add: Let_def)

lemma closure_for_total:
  assumes fin: "finite U" and stab: "\<forall>it \<in> A. expands_to g it \<subseteq> U" and UA: "U \<subseteq> A"
  shows "set items \<subseteq> A \<Longrightarrow>
     \<exists>zs ch'. closure_for g items k ch = Some (items @ zs, ch')
        \<and> set zs \<subseteq> U
        \<and> (\<forall>j. k \<le> j \<and> j < length (items @ zs) \<longrightarrow> expands_to g ((items @ zs) ! j) \<subseteq> set (items @ zs))
        \<and> (\<forall>S. set items \<subseteq> S \<and> closed_under_rule g S \<longrightarrow> set zs \<subseteq> S)"
proof (induction "card (U - set items) + (length items - k)" arbitrary: items k ch rule: less_induct)
  case less
  show ?case
  proof (cases "k < length items")
    case False
    then have "closure_for g items k ch = Some (items @ [], ch)"
      by (simp add: closure_for_step_done)
    moreover have "\<forall>j. k \<le> j \<and> j < length (items @ []) \<longrightarrow> expands_to g ((items @ []) ! j) \<subseteq> set (items @ [])"
      using False by auto
    ultimately show ?thesis by (metis empty_set empty_subsetI)
  next
    case True
    let ?it = "items ! k"
    have itA: "?it \<in> A" using True less.prems by auto
    show ?thesis
    proof (cases "\<not> completed ?it \<and> is_NonTerminal (rule ?it ! dot ?it)")
      case False
      then have e: "expands_to g ?it = {}" unfolding expands_to_def by auto
      have step: "closure_for g items k ch = closure_for g items (Suc k) ch"
        using closure_for_step_skip [OF True e] False by blast
      have m: "card (U - set items) + (length items - Suc k) < card (U - set items) + (length items - k)"
        using True by simp
      from less.hyps [OF m less.prems, of ch] obtain zs ch' where
        r: "closure_for g items (Suc k) ch = Some (items @ zs, ch')" "set zs \<subseteq> U"
           "\<forall>j. Suc k \<le> j \<and> j < length (items @ zs) \<longrightarrow> expands_to g ((items @ zs) ! j) \<subseteq> set (items @ zs)"
           "\<forall>S. set items \<subseteq> S \<and> closed_under_rule g S \<longrightarrow> set zs \<subseteq> S" by blast
      have "\<forall>j. k \<le> j \<and> j < length (items @ zs) \<longrightarrow> expands_to g ((items @ zs) ! j) \<subseteq> set (items @ zs)"
      proof (intro allI impI)
        fix j assume j: "k \<le> j \<and> j < length (items @ zs)"
        show "expands_to g ((items @ zs) ! j) \<subseteq> set (items @ zs)"
        proof (cases "j = k")
          case True
          then have "(items @ zs) ! j = ?it" using \<open>k < length items\<close> by (simp add: nth_append)
          with e show ?thesis by simp
        next
          case False
          with j have "Suc k \<le> j \<and> j < length (items @ zs)" by auto
          with r(3) show ?thesis by blast
        qed
      qed
      with step r show ?thesis by auto
    next
      case exp: True
      let ?new = "closure_items g (rule ?it ! dot ?it) (drop (dot ?it + 1) (rule ?it)) (lookahead ?it)"
      let ?items1 = "foldl LRState_append items ?new"
      have e: "expands_to g ?it = set ?new" using exp by (simp add: expands_to_def)
      from foldl_LRState_append [of items ?new] obtain zs1 where
        z1: "?items1 = items @ zs1" "distinct zs1" "set zs1 = set ?new - set items" by blast
      have newU: "set ?new \<subseteq> U" using stab itA e by auto
      have step: "closure_for g items k ch = closure_for g ?items1 (Suc k) (length ?items1 \<noteq> length items)"
        using closure_for_step_expand [OF True] exp by blast
      have sub: "set zs1 \<subseteq> U - set items" using z1(3) newU by auto
      have finD: "finite (U - set items)" using fin by simp
      have "U - set ?items1 = (U - set items) - set zs1" using z1(1) by auto
      then have "card (U - set ?items1) = card (U - set items) - card (set zs1)"
        using card_Diff_subset [of "set zs1" "U - set items"] sub by simp
      moreover have "card (set zs1) = length zs1" using z1(2) by (rule distinct_card)
      moreover have "card (set zs1) \<le> card (U - set items)" using sub finD by (rule card_mono [rotated])
      ultimately have m: "card (U - set ?items1) + (length ?items1 - Suc k)
                            < card (U - set items) + (length items - k)"
        using True z1(1) by simp
      have p1: "set ?items1 \<subseteq> A" using z1(1) less.prems sub UA by auto
      from less.hyps [OF m p1, of "length ?items1 \<noteq> length items"] obtain zs ch' where
        r: "closure_for g ?items1 (Suc k) (length ?items1 \<noteq> length items) = Some (?items1 @ zs, ch')"
           "set zs \<subseteq> U"
           "\<forall>j. Suc k \<le> j \<and> j < length (?items1 @ zs) \<longrightarrow> expands_to g ((?items1 @ zs) ! j) \<subseteq> set (?items1 @ zs)"
           "\<forall>S. set ?items1 \<subseteq> S \<and> closed_under_rule g S \<longrightarrow> set zs \<subseteq> S" by blast
      have eq: "?items1 @ zs = items @ (zs1 @ zs)" using z1(1) by simp
      have res: "closure_for g items k ch = Some (items @ (zs1 @ zs), ch')"
        using step r(1) eq by simp
      have inU: "set (zs1 @ zs) \<subseteq> U" using sub r(2) by auto
      have r3: "\<forall>j. Suc k \<le> j \<and> j < length (items @ (zs1 @ zs))
                  \<longrightarrow> expands_to g ((items @ (zs1 @ zs)) ! j) \<subseteq> set (items @ (zs1 @ zs))"
        using r(3) unfolding eq .
      have cl: "\<forall>j. k \<le> j \<and> j < length (items @ (zs1 @ zs))
                  \<longrightarrow> expands_to g ((items @ (zs1 @ zs)) ! j) \<subseteq> set (items @ (zs1 @ zs))"
      proof (intro allI impI)
        fix j assume j: "k \<le> j \<and> j < length (items @ (zs1 @ zs))"
        show "expands_to g ((items @ (zs1 @ zs)) ! j) \<subseteq> set (items @ (zs1 @ zs))"
        proof (cases "j = k")
          case True
          then have "(items @ (zs1 @ zs)) ! j = ?it" using \<open>k < length items\<close> by (simp add: nth_append)
          moreover have "set ?new \<subseteq> set (items @ (zs1 @ zs))" using z1(3) by auto
          ultimately show ?thesis using e by simp
        next
          case False
          with j have "Suc k \<le> j \<and> j < length (items @ (zs1 @ zs))" by auto
          with r3 show ?thesis by blast
        qed
      qed
      have least: "\<forall>S. set items \<subseteq> S \<and> closed_under_rule g S \<longrightarrow> set (zs1 @ zs) \<subseteq> S"
      proof (intro allI impI)
        fix S assume S: "set items \<subseteq> S \<and> closed_under_rule g S"
        then have "?it \<in> S" using True by auto
        with S have "expands_to g ?it \<subseteq> S" by (simp add: closed_under_rule_iff)
        with e have "set ?new \<subseteq> S" by simp
        with z1 S have s1: "set ?items1 \<subseteq> S" by auto
        with r(4) S have "set zs \<subseteq> S" by blast
        with s1 z1(1) show "set (zs1 @ zs) \<subseteq> S" by auto
      qed
      from res inU cl least show ?thesis by blast
    qed
  qed
qed


lemma closure_for_closed:
  "\<forall>j. k \<le> j \<and> j < length items \<longrightarrow> expands_to g (items ! j) \<subseteq> set items \<Longrightarrow>
     \<exists>ch'. closure_for g items k ch = Some (items, ch') \<and> (ch' \<longrightarrow> ch)"
proof (induction "length items - k" arbitrary: k ch)
  case 0
  then have "\<not> k < length items" by simp
  then show ?case by (simp add: closure_for_step_done)
next
  case (Suc n)
  then have k: "k < length items" by simp
  let ?it = "items ! k"
  have n: "n = length items - Suc k" using Suc.hyps(2) by simp
  have cl: "\<forall>j. Suc k \<le> j \<and> j < length items \<longrightarrow> expands_to g (items ! j) \<subseteq> set items"
    using Suc.prems by auto
  show ?case
  proof (cases "\<not> completed ?it \<and> is_NonTerminal (rule ?it ! dot ?it)")
    case False
    then have e: "expands_to g ?it = {}" unfolding expands_to_def by auto
    have "closure_for g items k ch = closure_for g items (Suc k) ch"
      using closure_for_step_skip [OF k e] False by blast
    with Suc.hyps(1) [OF n cl, of ch] show ?thesis by simp
  next
    case True
    let ?new = "closure_items g (rule ?it ! dot ?it) (drop (dot ?it + 1) (rule ?it)) (lookahead ?it)"
    have "expands_to g ?it = set ?new" using True by (simp add: expands_to_def)
    with Suc.prems k have sub: "set ?new \<subseteq> set items" by auto
    from foldl_LRState_append [of items ?new] obtain zs1 where
      z1: "foldl LRState_append items ?new = items @ zs1" "set zs1 = set ?new - set items" by blast
    from sub have "set ?new - set items = {}" by (simp only: Diff_eq_empty_iff)
    with z1(2) have "set zs1 = {}" by (simp only:)
    then have "zs1 = []" by simp
    with z1(1) have same: "foldl LRState_append items ?new = items" by simp
    have "closure_for g items k ch = closure_for g items (Suc k) False"
      using closure_for_step_expand [OF k, of g ch] True same by simp
    with Suc.hyps(1) [OF n cl, of False] show ?thesis by auto
  qed
qed

lemma closed_positions:
  "(\<forall>j. 0 \<le> j \<and> j < length items \<longrightarrow> expands_to g (items ! j) \<subseteq> set items)
     \<longleftrightarrow> closed_under_rule g (set items)"
proof -
  have "(\<forall>j. 0 \<le> j \<and> j < length items \<longrightarrow> expands_to g (items ! j) \<subseteq> set items)
          \<longleftrightarrow> (\<forall>it \<in> set items. expands_to g it \<subseteq> set items)"
    by (metis in_set_conv_nth le0)
  then show ?thesis by (simp only: closed_under_rule_iff)
qed

lemma closure_of_closed:
  assumes "closed_under_rule g (set items)"
  shows "closure g items = Some items"
proof -
  from assms have "\<forall>j. 0 \<le> j \<and> j < length items \<longrightarrow> expands_to g (items ! j) \<subseteq> set items"
    by (simp only: closed_positions)
  from closure_for_closed [OF this, of False]
  have "closure_for g items 0 False = Some (items, False)" by auto
  then show ?thesis
    unfolding closure_def by (subst closure_while.simps) simp
qed

text \<open>The items that can ever be appended, for lookaheads in \<open>W\<close>: finitely many.\<close>

definition item_universe :: "grammar \<Rightarrow> symbol set \<Rightarrow> LR1Item set" where
  "item_universe g W = {LR1Item x 0 gamma w | x gamma w. gamma \<in> set (rules_of g x) \<and> w \<in> W}"

lemma finite_item_universe:
  assumes "finite {x. rules_of g x \<noteq> []}" "finite W"
  shows "finite (item_universe g W)"
proof -
  let ?X = "{x. rules_of g x \<noteq> []}"
  let ?G = "\<Union>x\<in>?X. set (rules_of g x)"
  have "finite ?G" using assms(1) by simp
  then have f: "finite ((\<lambda>(x, gamma, w). LR1Item x 0 gamma w) ` (?X \<times> ?G \<times> W))"
    using assms by simp
  have "item_universe g W \<subseteq> (\<lambda>(x, gamma, w). LR1Item x 0 gamma w) ` (?X \<times> ?G \<times> W)"
  proof
    fix i assume "i \<in> item_universe g W"
    then obtain x gamma w where i: "i = LR1Item x 0 gamma w" "gamma \<in> set (rules_of g x)" "w \<in> W"
      by (auto simp: item_universe_def)
    then have "rules_of g x \<noteq> []" by auto
    with i have "(x, gamma, w) \<in> ?X \<times> ?G \<times> W" by auto
    with i(1) show "i \<in> (\<lambda>(x, gamma, w). LR1Item x 0 gamma w) ` (?X \<times> ?G \<times> W)"
      by (metis (mono_tags, lifting) case_prod_conv image_eqI)
  qed
  with f show ?thesis by (rule finite_subset [rotated])
qed

lemma expands_within_universe:
  assumes "finite_grammar g T" "lookahead it \<in> W" "T \<subseteq> W"
  shows "expands_to g it \<subseteq> item_universe g W"
proof
  fix n assume "n \<in> expands_to g it"
  then obtain gamma b where n: "n = LR1Item (rule it ! dot it) 0 gamma b"
    "gamma \<in> set (rules_of g (rule it ! dot it))"
    "b \<in> set (first_sentential_form g (drop (dot it + 1) (rule it) @ [lookahead it]))"
    by (auto simp: expands_to_def closure_items_def split: if_splits)
  from assms(1) n(3) have "b \<in> insert (lookahead it) T"
    unfolding finite_grammar_def by blast
  with assms(2,3) have "b \<in> W" by auto
  with n show "n \<in> item_universe g W" by (auto simp: item_universe_def)
qed

lemma closure_returns_least:
  assumes fg: "finite_grammar g T"
  shows "\<exists>J. closure g I = Some J \<and> set I \<subseteq> set J \<and> closed_under_rule g (set J)
            \<and> (\<forall>S. set I \<subseteq> S \<and> closed_under_rule g S \<longrightarrow> set J \<subseteq> S)"
proof -
  let ?W = "T \<union> lookahead ` set I"
  let ?U = "item_universe g ?W"
  let ?A = "set I \<union> ?U"
  have fin: "finite ?U"
    using fg by (intro finite_item_universe) (simp_all add: finite_grammar_def)
  have stab: "\<forall>it \<in> ?A. expands_to g it \<subseteq> ?U"
  proof
    fix it assume "it \<in> ?A"
    then have "lookahead it \<in> ?W" by (auto simp: item_universe_def)
    then show "expands_to g it \<subseteq> ?U"
      by (rule expands_within_universe [OF fg]) simp
  qed
  from closure_for_total [OF fin stab, of I 0 False] obtain zs ch where
    r: "closure_for g I 0 False = Some (I @ zs, ch)"
       "\<forall>j. 0 \<le> j \<and> j < length (I @ zs) \<longrightarrow> expands_to g ((I @ zs) ! j) \<subseteq> set (I @ zs)"
       "\<forall>S. set I \<subseteq> S \<and> closed_under_rule g S \<longrightarrow> set zs \<subseteq> S" by auto
  from r(2) have cl: "closed_under_rule g (set (I @ zs))" by (simp only: closed_positions)
  have "closure g I = Some (I @ zs)"
  proof (cases ch)
    case True
    from closure_of_closed [OF cl] have "closure_while g (I @ zs) = Some (I @ zs)"
      by (simp add: closure_def)
    with r(1) True show ?thesis
      unfolding closure_def by (subst closure_while.simps) simp
  next
    case False
    with r(1) show ?thesis
      unfolding closure_def by (subst closure_while.simps) simp
  qed
  moreover have "\<forall>S. set I \<subseteq> S \<and> closed_under_rule g S \<longrightarrow> set (I @ zs) \<subseteq> S"
    using r(3) by auto
  ultimately show ?thesis using cl by auto
qed

text \<open>
  A grammar given by tables, for concrete runs: the alternatives of each non-terminal
  and \<open>FIRST\<close> of each symbol. For a grammar with no nullable symbol, \<open>FIRST*\<close> of a
  sequence is \<open>FIRST\<close> of its first symbol.
\<close>

definition table_grammar ::
    "symbol \<Rightarrow> (symbol \<times> Expansion list) list \<Rightarrow> (symbol \<times> symbol list) list
       \<Rightarrow> symbol list \<Rightarrow> symbol list \<Rightarrow> grammar" where
  "table_grammar start rules firsts ts nts =
     \<lparr>start_symbol = start,
      rules_of = (\<lambda>x. case map_of rules x of Some rs \<Rightarrow> rs | None \<Rightarrow> []),
      first_sentential_form =
        (\<lambda>ss. case ss of [] \<Rightarrow> []
               | s # rest \<Rightarrow> (case map_of firsts s of Some fs \<Rightarrow> fs | None \<Rightarrow> [])),
      terminals = set ts, non_terminals = set nts\<rparr>"

lemma finite_table_grammar:
  "finite_grammar (table_grammar start rules firsts ts nts) (\<Union>(set ` snd ` set firsts))"
proof -
  let ?g = "table_grammar start rules firsts ts nts"
  have "{x. rules_of ?g x \<noteq> []} \<subseteq> fst ` set rules"
    by (auto simp: table_grammar_def split: option.splits dest: map_of_SomeD intro: rev_image_eqI)
  then have f: "finite {x. rules_of ?g x \<noteq> []}" by (rule finite_subset) simp
  have b: "\<forall>beta a. set (first_sentential_form ?g (beta @ [a])) \<subseteq> insert a (\<Union>(set ` snd ` set firsts))"
  proof (intro allI subsetI)
    fix beta a x assume x: "x \<in> set (first_sentential_form ?g (beta @ [a]))"
    then have "\<exists>s fs. map_of firsts s = Some fs \<and> x \<in> set fs"
      by (cases "beta @ [a]") (auto simp: table_grammar_def split: option.splits, metis)
    then obtain s fs where "map_of firsts s = Some fs" "x \<in> set fs" by blast
    then have "(s, fs) \<in> set firsts" "x \<in> set fs" by (auto dest: map_of_SomeD)
    then have "x \<in> \<Union>(set ` snd ` set firsts)" by force
    then show "x \<in> insert a (\<Union>(set ` snd ` set firsts))" by simp
  qed
  from f b show ?thesis by (simp add: finite_grammar_def)
qed

text \<open>Scenario 2 of the spec: \<open>S' \<rightarrow> S\<close>, \<open>S \<rightarrow> ( L ) | x\<close>, \<open>L \<rightarrow> S | L , S\<close>.\<close>

definition list_rules :: "(symbol \<times> Expansion list) list" where
  "list_rules =
     [(NonTerminal ''S1'', [[NonTerminal ''S'']]),
      (NonTerminal ''S'', [[Terminal ''('', NonTerminal ''L'', Terminal '')''], [Terminal ''x'']]),
      (NonTerminal ''L'', [[NonTerminal ''S''], [NonTerminal ''L'', Terminal '','', NonTerminal ''S'']])]"

definition list_firsts :: "(symbol \<times> symbol list) list" where
  "list_firsts =
     [(NonTerminal ''S1'', [Terminal ''('', Terminal ''x'']),
      (NonTerminal ''S'', [Terminal ''('', Terminal ''x'']),
      (NonTerminal ''L'', [Terminal ''('', Terminal ''x'']),
      (Terminal ''('', [Terminal ''('']), (Terminal '')'', [Terminal '')'']),
      (Terminal ''x'', [Terminal ''x'']), (Terminal '','', [Terminal '','']),
      (EOF, [EOF])]"

definition list_grammar :: grammar where
  "list_grammar =
     table_grammar (NonTerminal ''S1'') list_rules list_firsts
       [Terminal ''('', Terminal '')'', Terminal ''x'', Terminal '','', EOF]
       [NonTerminal ''S1'', NonTerminal ''S'', NonTerminal ''L'']"



definition start_kernel :: LRState where
  "start_kernel = [LR1Item (NonTerminal ''S1'') 0 [NonTerminal ''S'', EOF] EOF]"

definition start_closure :: LRState where
  "start_closure =
  [LR1Item (NonTerminal ''S1'') 0 [NonTerminal ''S'', EOF] EOF,
   LR1Item (NonTerminal ''S'') 0 [Terminal ''('', NonTerminal ''L'', Terminal '')''] EOF,
   LR1Item (NonTerminal ''S'') 0 [Terminal ''x''] EOF]"



lemma closure_start_kernel: "closure list_grammar start_kernel = Some start_closure"
  by code_simp


section \<open>Goto, the enumeration of the states and the table (lr/lr1.py)\<close>

text \<open>
  \<^verbatim>\<open>init_kernel\<close>: the one item \<open>(S', 0, rule + [EOF], EOF)\<close>, where \<open>rule\<close> is the first
  alternative of the start symbol (\<^verbatim>\<open>[0]\<close> raises \<^verbatim>\<open>IndexError\<close> when there is none) and
  \<^verbatim>\<open>append_marker\<close> appends to the stored list.
\<close>

definition init_kernel :: "grammar \<Rightarrow> error + LRState" where
  "init_kernel g =
     (case rules_of g (start_symbol g) of
        [] \<Rightarrow> Inl IndexError
      | r # rest \<Rightarrow> Inr [LR1Item (start_symbol g) 0 (r @ [EOF]) EOF])"

text \<open>
  \<^verbatim>\<open>goto\<close>: the assertion \<^verbatim>\<open>sym is not EMPTY\<close>, then the closure of the advanced items
  among the unfinished ones whose symbol after the dot is \<^verbatim>\<open>==\<close> to \<open>sym\<close>. (The
  argument is named \<open>symb\<close> here.) A closure that does not return gives no result.
  The items handed to \<^verbatim>\<open>closure\<close> all have the dot after position 0; on such arguments
  the memo table of \<^verbatim>\<open>closure\<close> answers with the items its body computes (shown in the
  section on the memo table), and the body is what is called here. \<^verbatim>\<open>goto\<close> is memoised
  in the same way, on states that are the closures of their kernels.
\<close>

definition goto :: "grammar \<Rightarrow> LRState \<Rightarrow> symbol \<Rightarrow> (error + LRState) option" where
  "goto g configuration_set symb =
     (if symb = EMPTY then Some (Inl AssertionError)
      else map_option Inr
             (closure g
                (foldl LRState_append []
                   (map advance
                      (filter (\<lambda>item. \<not> completed item \<and> Symbol_eq (rule item ! dot item) symb)
                         configuration_set)))))"

text \<open>
  Modelled from the spec: the equality of \<^verbatim>\<open>LRState\<close> (lr/core.py is not among the
  sources). The kernel of a state is the subset of its items with the dot after
  position 0, plus the augmented start item in the start state; two states are equal iff
  their kernels are equal as sets. \<open>start\<close> is the state \<^verbatim>\<open>init_kernel\<close> returns.
\<close>

definition kernel :: "LRState \<Rightarrow> LRState \<Rightarrow> LR1Item list" where
  "kernel start st = filter (\<lambda>it. 0 < dot it \<or> it \<in> set start) st"

definition LRState_eq :: "LRState \<Rightarrow> LRState \<Rightarrow> LRState \<Rightarrow> bool" where
  "LRState_eq start a b = (set (kernel start a) = set (kernel start b))"

text \<open>
  A Python \<^verbatim>\<open>dict\<close> in insertion order, with the equality of its keys as a parameter:
  \<^verbatim>\<open>d.get(key)\<close> and \<^verbatim>\<open>d[key] = v\<close>, which replaces the value of a key that is
  present (the stored key object stays) and appends a new key otherwise.
\<close>

definition dict_get :: "('k \<Rightarrow> 'k \<Rightarrow> bool) \<Rightarrow> ('k \<times> 'v) list \<Rightarrow> 'k \<Rightarrow> 'v option" where
  "dict_get eq d key = map_option snd (find (\<lambda>entry. eq (fst entry) key) d)"

definition dict_set :: "('k \<Rightarrow> 'k \<Rightarrow> bool) \<Rightarrow> ('k \<times> 'v) list \<Rightarrow> 'k \<Rightarrow> 'v \<Rightarrow> ('k \<times> 'v) list" where
  "dict_set eq d key v =
     (if list_ex (\<lambda>entry. eq (fst entry) key) d
      then map (\<lambda>entry. if eq (fst entry) key then (fst entry, v) else entry) d
      else d @ [(key, v)])"

text \<open>
  \<^verbatim>\<open>get_items\<close>. The dict \<^verbatim>\<open>lr1_items\<close> is the list of its keys. The innermost loop runs
  over the set \<^verbatim>\<open>non_terminals | terminals\<close>; the order in which Python iterates that set
  is the list \<open>symbols\<close>. The \<^verbatim>\<open>for state in lr1_items.copy()\<close> loop runs over the states
  known when the pass starts; \<^verbatim>\<open>changing\<close> is only ever set to \<^verbatim>\<open>True\<close> in a pass.
\<close>

fun get_items_symbols ::
    "grammar \<Rightarrow> LRState \<Rightarrow> LRState \<Rightarrow> symbol list \<Rightarrow> LRState list \<times> bool
       \<Rightarrow> (error + LRState list \<times> bool) option" where
  "get_items_symbols g start state [] acc = Some (Inr acc)"
| "get_items_symbols g start state (X # rest) (lr1_items, changing) =
     (case goto g state X of
        None \<Rightarrow> None
      | Some (Inl e) \<Rightarrow> Some (Inl e)
      | Some (Inr next_set) \<Rightarrow>
          (if next_set \<noteq> [] \<and> \<not> list_ex (LRState_eq start next_set) lr1_items
           then get_items_symbols g start state rest (lr1_items @ [next_set], True)
           else get_items_symbols g start state rest (lr1_items, changing)))"

fun get_items_states ::
    "grammar \<Rightarrow> LRState \<Rightarrow> symbol list \<Rightarrow> LRState list \<Rightarrow> LRState list \<times> bool
       \<Rightarrow> (error + LRState list \<times> bool) option" where
  "get_items_states g start symbols [] acc = Some (Inr acc)"
| "get_items_states g start symbols (state # rest) acc =
     (case get_items_symbols g start state symbols acc of
        None \<Rightarrow> None
      | Some (Inl e) \<Rightarrow> Some (Inl e)
      | Some (Inr acc1) \<Rightarrow> get_items_states g start symbols rest acc1)"

partial_function (option) get_items_while ::
    "grammar \<Rightarrow> LRState \<Rightarrow> symbol list \<Rightarrow> LRState list \<Rightarrow> (error + LRState list) option" where
  "get_items_while g start symbols lr1_items =
     (case get_items_states g start symbols lr1_items (lr1_items, False) of
        None \<Rightarrow> None
      | Some (Inl e) \<Rightarrow> Some (Inl e)
      | Some (Inr (lr1_items1, changing)) \<Rightarrow>
          if changing then get_items_while g start symbols lr1_items1
          else Some (Inr lr1_items1))"

declare get_items_while.simps [code]

definition get_items :: "grammar \<Rightarrow> symbol list \<Rightarrow> (error + LRState list) option" where
  "get_items g symbols =
     (case init_kernel g of
        Inl e \<Rightarrow> Some (Inl e)
      | Inr start \<Rightarrow>
          (case closure g start of
             None \<Rightarrow> None
           | Some start_state \<Rightarrow> get_items_while g start symbols [start_state]))"

text \<open>
  The table class \<^verbatim>\<open>LRTable\<close> is not among the sources; \<^verbatim>\<open>lr1.py\<close> uses it as a dict from
  \<open>(state, symbol name)\<close> to actions (\<^verbatim>\<open>self[key] = action\<close>, \<^verbatim>\<open>key not in self\<close>, and
  \<^verbatim>\<open>get\<close> in \<^verbatim>\<open>gen_parser\<close>), and it is that dict here. Two keys are equal when their states
  and their names are.
\<close>

type_synonym LRTable = "((LRState \<times> string) \<times> LRState action) list"

definition key_eq :: "LRState \<Rightarrow> LRState \<times> string \<Rightarrow> LRState \<times> string \<Rightarrow> bool" where
  "key_eq start k1 k2 = (LRState_eq start (fst k1) (fst k2) \<and> snd k1 = snd k2)"

text \<open>
  The loop \<^verbatim>\<open>for I_j in items: if self.goto(state_i, a) == I_j: self[(state_i, a.id)] = ...\<close>
  of \<^verbatim>\<open>construct\<close>, used with \<^verbatim>\<open>Shift\<close> for the symbol after the dot of an item and with
  \<^verbatim>\<open>Goto\<close> for every non-terminal. The id of a symbol is its name.
\<close>

fun enter_transitions ::
    "grammar \<Rightarrow> LRState \<Rightarrow> (LRState \<Rightarrow> LRState action) \<Rightarrow> LRState \<Rightarrow> symbol \<Rightarrow> LRState list
       \<Rightarrow> LRTable \<Rightarrow> (error + LRTable) option" where
  "enter_transitions g start mk state_i a [] table = Some (Inr table)"
| "enter_transitions g start mk state_i a (I_j # rest) table =
     (case goto g state_i a of
        None \<Rightarrow> None
      | Some (Inl e) \<Rightarrow> Some (Inl e)
      | Some (Inr next_set) \<Rightarrow>
          enter_transitions g start mk state_i a rest
            (if LRState_eq start next_set I_j
             then dict_set (key_eq start) table (state_i, name a) (mk I_j) else table))"

text \<open>
  The body of \<^verbatim>\<open>for item in state_i\<close> in \<^verbatim>\<open>construct\<close>. Every assignment is a plain
  \<^verbatim>\<open>self[key] = action\<close>: the source tests nothing before it writes.
\<close>

definition construct_item ::
    "grammar \<Rightarrow> LRState \<Rightarrow> LRState list \<Rightarrow> LRState \<Rightarrow> LR1Item \<Rightarrow> LRTable
       \<Rightarrow> (error + LRTable) option" where
  "construct_item g start items state_i item table =
     (if completed item
      then (if Symbol_eq (item_name item) (start_symbol g) \<and> lookahead item = EOF
            then Some (Inr (dict_set (key_eq start) table (state_i, name EOF) Accept))
            else if \<not> Symbol_eq (item_name item) (start_symbol g)
            then Some (Inr (dict_set (key_eq start) table (state_i, name (lookahead item))
                              (Reduce_of (item_name item) (rule item))))
            else Some (Inr table))
      else enter_transitions g start Shift state_i (rule item ! dot item) items table)"

fun construct_items ::
    "grammar \<Rightarrow> LRState \<Rightarrow> LRState list \<Rightarrow> LRState \<Rightarrow> LR1Item list \<Rightarrow> LRTable
       \<Rightarrow> (error + LRTable) option" where
  "construct_items g start items state_i [] table = Some (Inr table)"
| "construct_items g start items state_i (item # rest) table =
     (case construct_item g start items state_i item table of
        None \<Rightarrow> None
      | Some (Inl e) \<Rightarrow> Some (Inl e)
      | Some (Inr table1) \<Rightarrow> construct_items g start items state_i rest table1)"

text \<open>\<^verbatim>\<open>for nt in self.grammar.non_terminals\<close>, in the order \<open>nts\<close> in which the set is iterated.\<close>

fun construct_gotos ::
    "grammar \<Rightarrow> LRState \<Rightarrow> LRState list \<Rightarrow> LRState \<Rightarrow> symbol list \<Rightarrow> LRTable
       \<Rightarrow> (error + LRTable) option" where
  "construct_gotos g start items state_i [] table = Some (Inr table)"
| "construct_gotos g start items state_i (nt # rest) table =
     (case enter_transitions g start Goto state_i nt items table of
        None \<Rightarrow> None
      | Some (Inl e) \<Rightarrow> Some (Inl e)
      | Some (Inr table1) \<Rightarrow> construct_gotos g start items state_i rest table1)"

text \<open>\<^verbatim>\<open>for i, state_i in enumerate(items)\<close>.\<close>

fun construct_states ::
    "grammar \<Rightarrow> LRState \<Rightarrow> LRState list \<Rightarrow> symbol list \<Rightarrow> LRState list \<Rightarrow> LRTable
       \<Rightarrow> (error + LRTable) option" where
  "construct_states g start items nts [] table = Some (Inr table)"
| "construct_states g start items nts (state_i # rest) table =
     (case construct_items g start items state_i state_i table of
        None \<Rightarrow> None
      | Some (Inl e) \<Rightarrow> Some (Inl e)
      | Some (Inr table1) \<Rightarrow>
          (case construct_gotos g start items state_i nts table1 of
             None \<Rightarrow> None
           | Some (Inl e) \<Rightarrow> Some (Inl e)
           | Some (Inr table2) \<Rightarrow> construct_states g start items nts rest table2))"

text \<open>\<^verbatim>\<open>construct\<close>, from an empty table: the table and \<^verbatim>\<open>self.states\<close>.\<close>

definition construct ::
    "grammar \<Rightarrow> symbol list \<Rightarrow> symbol list \<Rightarrow> (error + LRTable \<times> LRState list) option" where
  "construct g symbols nts =
     (case get_items g symbols of
        None \<Rightarrow> None
      | Some (Inl e) \<Rightarrow> Some (Inl e)
      | Some (Inr items) \<Rightarrow>
          (case init_kernel g of
             Inl e \<Rightarrow> Some (Inl e)
           | Inr start \<Rightarrow>
               (case construct_states g start items nts items [] of
                  None \<Rightarrow> None
                | Some (Inl e) \<Rightarrow> Some (Inl e)
                | Some (Inr table) \<Rightarrow> Some (Inr (table, items)))))"

text \<open>
  \<^verbatim>\<open>compute_reduce_actions\<close>, the other place that writes reductions: it tests
  \<^verbatim>\<open>(state, lookahead.id) not in self\<close> and raises \<^verbatim>\<open>ValueError\<close> on an occupied cell.
  \<^verbatim>\<open>yield_finished\<close> yields the completed items of a state.
\<close>

fun compute_reduce_state :: "LRState \<Rightarrow> LRState \<Rightarrow> LR1Item list \<Rightarrow> LRTable \<Rightarrow> error + LRTable" where
  "compute_reduce_state start state [] table = Inr table"
| "compute_reduce_state start state (item # rest) table =
     (if dict_get (key_eq start) table (state, name (lookahead item)) = None
      then compute_reduce_state start state rest
             (dict_set (key_eq start) table (state, name (lookahead item))
                (Reduce_of (item_name item) (rule item)))
      else Inl ValueError)"

fun compute_reduce_actions :: "LRState \<Rightarrow> LRState list \<Rightarrow> LRTable \<Rightarrow> error + LRTable" where
  "compute_reduce_actions start [] table = Inr table"
| "compute_reduce_actions start (state # rest) table =
     (case compute_reduce_state start state (filter completed state) table of
        Inl e \<Rightarrow> Inl e
      | Inr table1 \<Rightarrow> compute_reduce_actions start rest table1)"

text \<open>
  Modelled from the spec: the id of a state (\<^verbatim>\<open>LRState.id\<close>, lr/core.py, is not among the
  sources). Each state has an integer id assigned in the order it is first discovered:
  its position in the list \<^verbatim>\<open>get_items\<close> returns.
\<close>

definition state_id :: "LRState \<Rightarrow> LRState list \<Rightarrow> LRState \<Rightarrow> int" where
  "state_id start items st = int (length (takeWhile (\<lambda>s. \<not> LRState_eq start s st) items))"

section \<open>Where the table holds Accept\<close>

















lemma not_eps_EOF: "\<not> Symbol_eq EOF EMPTY"
  by (simp add: Symbol_eq_def EOF_def EMPTY_def)

lemma Expansion_len_append_EOF: "Expansion_len (r @ [EOF]) = Expansion_len r + 1"
  by (simp add: Expansion_len_filter not_eps_EOF)

lemma Expansion_len_nonneg: "0 \<le> Expansion_len r"
  by (simp add: Expansion_len_filter)


text \<open>The smallest grammar with an augmented start: \<open>S' \<rightarrow> S\<close>, \<open>S \<rightarrow> x\<close>, its four states
  and its table.\<close>

definition tiny_rules :: "(symbol \<times> Expansion list) list" where
  "tiny_rules = [(NonTerminal ''S1'', [[NonTerminal ''S'']]), (NonTerminal ''S'', [[Terminal ''x'']])]"

definition tiny_firsts :: "(symbol \<times> symbol list) list" where
  "tiny_firsts = [(NonTerminal ''S1'', [Terminal ''x'']), (NonTerminal ''S'', [Terminal ''x'']),
                  (Terminal ''x'', [Terminal ''x'']), (EOF, [EOF])]"

definition tiny_grammar :: grammar where
  "tiny_grammar = table_grammar (NonTerminal ''S1'') tiny_rules tiny_firsts
     [Terminal ''x'', EOF] [NonTerminal ''S1'', NonTerminal ''S'']"

definition tiny_kernel :: LRState where
  "tiny_kernel = [LR1Item (NonTerminal ''S1'') 0 [NonTerminal ''S'', EOF] EOF]"

definition tiny_start :: LRState where
  "tiny_start = [LR1Item (NonTerminal ''S1'') 0 [NonTerminal ''S'', EOF] EOF,
                 LR1Item (NonTerminal ''S'') 0 [Terminal ''x''] EOF]"

definition tiny_after_S :: LRState where
  "tiny_after_S = [LR1Item (NonTerminal ''S1'') 1 [NonTerminal ''S'', EOF] EOF]"

definition tiny_after_x :: LRState where
  "tiny_after_x = [LR1Item (NonTerminal ''S'') 1 [Terminal ''x''] EOF]"

definition tiny_after_EOF :: LRState where
  "tiny_after_EOF = [LR1Item (NonTerminal ''S1'') 2 [NonTerminal ''S'', EOF] EOF]"

definition tiny_symbols :: "symbol list" where
  "tiny_symbols = [NonTerminal ''S1'', NonTerminal ''S'', Terminal ''x'', EOF]"


definition tiny_states :: "LRState list" where
  "tiny_states = [tiny_start, tiny_after_S, tiny_after_x, tiny_after_EOF]"






lemma tiny_get_items: "get_items tiny_grammar tiny_symbols = Some (Inr tiny_states)"
  by code_simp






section \<open>An occupied cell of the table is overwritten\<close>

text \<open>
  Scenario 4 of the spec, the ambiguous grammar \<open>E' \<rightarrow> E\<close>, \<open>E \<rightarrow> E + E | integer\<close>, with its
  six LR(1) states in the order \<^verbatim>\<open>get_items\<close> discovers them and the table \<^verbatim>\<open>construct\<close>
  returns for it.
\<close>

definition ambiguous_rules :: "(symbol \<times> Expansion list) list" where
  "ambiguous_rules =
     [(NonTerminal ''E1'', [[NonTerminal ''E'']]),
      (NonTerminal ''E'', [[NonTerminal ''E'', Terminal ''+'', NonTerminal ''E''], [Terminal ''integer'']])]"

definition ambiguous_firsts :: "(symbol \<times> symbol list) list" where
  "ambiguous_firsts =
     [(NonTerminal ''E1'', [Terminal ''integer'']), (NonTerminal ''E'', [Terminal ''integer'']),
      (Terminal ''+'', [Terminal ''+'']), (Terminal ''integer'', [Terminal ''integer'']), (EOF, [EOF])]"

definition ambiguous_grammar :: grammar where
  "ambiguous_grammar = table_grammar (NonTerminal ''E1'') ambiguous_rules ambiguous_firsts
     [Terminal ''+'', Terminal ''integer'', EOF] [NonTerminal ''E1'', NonTerminal ''E'']"

definition ambiguous_symbols :: "symbol list" where
  "ambiguous_symbols = [NonTerminal ''E1'', NonTerminal ''E'', Terminal ''+'', Terminal ''integer'', EOF]"

definition ambiguous_non_terminals :: "symbol list" where
  "ambiguous_non_terminals = [NonTerminal ''E1'', NonTerminal ''E'']"

definition E_plus_E :: Expansion where
  "E_plus_E = [NonTerminal ''E'', Terminal ''+'', NonTerminal ''E'']"

definition amb_kernel :: LRState where
  "amb_kernel = [LR1Item (NonTerminal ''E1'') 0 [NonTerminal ''E'', EOF] EOF]"

definition amb_start :: LRState where
  "amb_start =
     [LR1Item (NonTerminal ''E1'') 0 [NonTerminal ''E'', EOF] EOF,
      LR1Item (NonTerminal ''E'') 0 E_plus_E EOF,
      LR1Item (NonTerminal ''E'') 0 [Terminal ''integer''] EOF,
      LR1Item (NonTerminal ''E'') 0 E_plus_E (Terminal ''+''),
      LR1Item (NonTerminal ''E'') 0 [Terminal ''integer''] (Terminal ''+'')]"

definition amb_after_E :: LRState where
  "amb_after_E =
     [LR1Item (NonTerminal ''E1'') 1 [NonTerminal ''E'', EOF] EOF,
      LR1Item (NonTerminal ''E'') 1 E_plus_E EOF,
      LR1Item (NonTerminal ''E'') 1 E_plus_E (Terminal ''+'')]"

definition amb_after_integer :: LRState where
  "amb_after_integer =
     [LR1Item (NonTerminal ''E'') 1 [Terminal ''integer''] EOF,
      LR1Item (NonTerminal ''E'') 1 [Terminal ''integer''] (Terminal ''+'')]"

definition amb_after_plus :: LRState where
  "amb_after_plus =
     [LR1Item (NonTerminal ''E'') 2 E_plus_E EOF,
      LR1Item (NonTerminal ''E'') 2 E_plus_E (Terminal ''+''),
      LR1Item (NonTerminal ''E'') 0 E_plus_E EOF,
      LR1Item (NonTerminal ''E'') 0 [Terminal ''integer''] EOF,
      LR1Item (NonTerminal ''E'') 0 E_plus_E (Terminal ''+''),
      LR1Item (NonTerminal ''E'') 0 [Terminal ''integer''] (Terminal ''+'')]"

definition amb_accept :: LRState where
  "amb_accept = [LR1Item (NonTerminal ''E1'') 2 [NonTerminal ''E'', EOF] EOF]"

definition amb_after_E_plus_E :: LRState where
  "amb_after_E_plus_E =
     [LR1Item (NonTerminal ''E'') 3 E_plus_E EOF,
      LR1Item (NonTerminal ''E'') 3 E_plus_E (Terminal ''+''),
      LR1Item (NonTerminal ''E'') 1 E_plus_E EOF,
      LR1Item (NonTerminal ''E'') 1 E_plus_E (Terminal ''+'')]"

definition amb_states :: "LRState list" where
  "amb_states = [amb_start, amb_after_E, amb_after_integer, amb_after_plus, amb_accept, amb_after_E_plus_E]"

definition amb_table :: LRTable where
  "amb_table =
     [((amb_start, ''E''), Goto amb_after_E),
      ((amb_start, ''integer''), Shift amb_after_integer),
      ((amb_after_E, ''eof''), Shift amb_accept),
      ((amb_after_E, ''+''), Shift amb_after_plus),
      ((amb_after_integer, ''eof''), Reduce (NonTerminal ''E'') 1),
      ((amb_after_integer, ''+''), Reduce (NonTerminal ''E'') 1),
      ((amb_after_plus, ''E''), Goto amb_after_E_plus_E),
      ((amb_after_plus, ''integer''), Shift amb_after_integer),
      ((amb_accept, ''eof''), Accept),
      ((amb_after_E_plus_E, ''eof''), Reduce (NonTerminal ''E'') 3),
      ((amb_after_E_plus_E, ''+''), Shift amb_after_plus)]"

lemma amb_init_kernel: "init_kernel ambiguous_grammar = Inr amb_kernel"
  by code_simp

lemma amb_get_items: "get_items ambiguous_grammar ambiguous_symbols = Some (Inr amb_states)"
  by code_simp

lemma amb_construct:
  "construct ambiguous_grammar ambiguous_symbols ambiguous_non_terminals
     = Some (Inr (amb_table, amb_states))"
  by code_simp

lemma amb_reduce_item:
  "LR1Item (NonTerminal ''E'') 3 E_plus_E (Terminal ''+'') \<in> set amb_after_E_plus_E
   \<and> completed (LR1Item (NonTerminal ''E'') 3 E_plus_E (Terminal ''+''))"
  by code_simp

lemma amb_shift_item:
  "LR1Item (NonTerminal ''E'') 1 E_plus_E EOF \<in> set amb_after_E_plus_E
   \<and> \<not> completed (LR1Item (NonTerminal ''E'') 1 E_plus_E EOF)
   \<and> rule (LR1Item (NonTerminal ''E'') 1 E_plus_E EOF) ! 1 = Terminal ''+''"
  by code_simp

lemma amb_cell:
  "dict_get (key_eq amb_kernel) amb_table (amb_after_E_plus_E, ''+'') = Some (Shift amb_after_plus)"
  by code_simp

lemma amb_step_reduce:
  "construct_item ambiguous_grammar amb_kernel amb_states amb_after_E_plus_E
     (LR1Item (NonTerminal ''E'') 3 E_plus_E (Terminal ''+'')) []
     = Some (Inr [((amb_after_E_plus_E, ''+''), Reduce (NonTerminal ''E'') 3)])"
  by code_simp

lemma amb_step_shift:
  "construct_item ambiguous_grammar amb_kernel amb_states amb_after_E_plus_E
     (LR1Item (NonTerminal ''E'') 1 E_plus_E EOF)
     [((amb_after_E_plus_E, ''+''), Reduce (NonTerminal ''E'') 3)]
     = Some (Inr [((amb_after_E_plus_E, ''+''), Shift amb_after_plus)])"
  by code_simp

lemma amb_sibling:
  "compute_reduce_state amb_kernel amb_after_E_plus_E (filter completed amb_after_E_plus_E)
     [((amb_after_E_plus_E, ''+''), Shift amb_after_plus)] = Inl ValueError"
  by code_simp

text \<open>
  C1. On the ambiguous grammar \<^verbatim>\<open>construct\<close> returns a table and raises nothing. The state
  reached after \<open>E + E\<close> holds the complete item \<open>(E \<rightarrow> E + E \<cdot>, +)\<close> and the item
  \<open>(E \<rightarrow> E \<cdot> + E, EOF)\<close>: the first writes \<^verbatim>\<open>Reduce\<close> to the cell of that state and \<open>+\<close>, the
  second then writes \<^verbatim>\<open>Shift\<close> to the same cell, and the table ends with the \<^verbatim>\<open>Shift\<close>
  alone. \<^verbatim>\<open>compute_reduce_actions\<close>, on the same state with the cell occupied, raises
  \<^verbatim>\<open>ValueError\<close> instead.
\<close>

theorem construct_overwrites_conflict:
  "construct ambiguous_grammar ambiguous_symbols ambiguous_non_terminals
     = Some (Inr (amb_table, amb_states))
   \<and> LR1Item (NonTerminal ''E'') 3 E_plus_E (Terminal ''+'') \<in> set amb_after_E_plus_E
   \<and> completed (LR1Item (NonTerminal ''E'') 3 E_plus_E (Terminal ''+''))
   \<and> LR1Item (NonTerminal ''E'') 1 E_plus_E EOF \<in> set amb_after_E_plus_E
   \<and> \<not> completed (LR1Item (NonTerminal ''E'') 1 E_plus_E EOF)
   \<and> construct_item ambiguous_grammar amb_kernel amb_states amb_after_E_plus_E
        (LR1Item (NonTerminal ''E'') 3 E_plus_E (Terminal ''+'')) []
        = Some (Inr [((amb_after_E_plus_E, ''+''), Reduce (NonTerminal ''E'') 3)])
   \<and> construct_item ambiguous_grammar amb_kernel amb_states amb_after_E_plus_E
        (LR1Item (NonTerminal ''E'') 1 E_plus_E EOF)
        [((amb_after_E_plus_E, ''+''), Reduce (NonTerminal ''E'') 3)]
        = Some (Inr [((amb_after_E_plus_E, ''+''), Shift amb_after_plus)])
   \<and> dict_get (key_eq amb_kernel) amb_table (amb_after_E_plus_E, ''+'') = Some (Shift amb_after_plus)
   \<and> compute_reduce_state amb_kernel amb_after_E_plus_E (filter completed amb_after_E_plus_E)
        [((amb_after_E_plus_E, ''+''), Shift amb_after_plus)] = Inl ValueError"
  using amb_construct amb_reduce_item amb_shift_item amb_step_reduce amb_step_shift amb_cell
    amb_sibling
  by simp


section \<open>The states found do not depend on the iteration order, their numbering does\<close>

text \<open>
  The states of the automaton, as the spec enumerates them: the start state, and every
  non-empty \<open>Goto(I, X)\<close> of a state \<open>I\<close> already there, for \<open>X\<close> a symbol of the grammar.
\<close>

inductive_set reachable_states :: "grammar \<Rightarrow> LRState \<Rightarrow> symbol set \<Rightarrow> LRState set"
  for g :: grammar and s0 :: LRState and X :: "symbol set" where
  start: "s0 \<in> reachable_states g s0 X"
| step: "s \<in> reachable_states g s0 X \<Longrightarrow> x \<in> X \<Longrightarrow> goto g s x = Some (Inr n) \<Longrightarrow> n \<noteq> []
           \<Longrightarrow> n \<in> reachable_states g s0 X"

text \<open>A state that is the closure of its kernel: closed, and least among the closed sets
  that contain its kernel.\<close>

definition generated_state :: "grammar \<Rightarrow> LRState \<Rightarrow> LRState \<Rightarrow> bool" where
  "generated_state g start s =
     (closed_under_rule g (set s)
      \<and> (\<forall>S. set (kernel start s) \<subseteq> S \<and> closed_under_rule g S \<longrightarrow> set s \<subseteq> S))"


lemma kernel_mono: "set I \<subseteq> set J \<Longrightarrow> set (kernel start I) \<subseteq> set (kernel start J)"
  by (auto simp: kernel_def)

lemma closure_unique:
  assumes "finite_grammar g T" "closure g I = Some J"
  shows "set I \<subseteq> set J" "closed_under_rule g (set J)"
    "\<And>S. set I \<subseteq> S \<Longrightarrow> closed_under_rule g S \<Longrightarrow> set J \<subseteq> S"
proof -
  from closure_returns_least [OF assms(1), of I] obtain J' where
    j: "closure g I = Some J'" "set I \<subseteq> set J'" "closed_under_rule g (set J')"
       "\<forall>S. set I \<subseteq> S \<and> closed_under_rule g S \<longrightarrow> set J' \<subseteq> S" by blast
  with assms(2) have e: "J' = J" by simp
  from j(2) e show "set I \<subseteq> set J" by simp
  from j(3) e show "closed_under_rule g (set J)" by simp
  fix S assume "set I \<subseteq> S" "closed_under_rule g S"
  with j(4) e show "set J \<subseteq> S" by blast
qed

lemma closure_same_set:
  assumes fg: "finite_grammar g T" and "set I1 = set I2" "closure g I1 = Some J1"
  shows "\<exists>J2. closure g I2 = Some J2 \<and> set J1 = set J2"
proof -
  from closure_returns_least [OF fg, of I2] obtain J2 where j2: "closure g I2 = Some J2" by blast
  have "set J1 \<subseteq> set J2"
    using closure_unique(3) [OF fg assms(3)] closure_unique(1,2) [OF fg j2] assms(2) by simp
  moreover have "set J2 \<subseteq> set J1"
    using closure_unique(3) [OF fg j2] closure_unique(1,2) [OF fg assms(3)] assms(2) by simp
  ultimately show ?thesis using j2 by blast
qed

text \<open>The items \<^verbatim>\<open>goto\<close> collects before it calls \<^verbatim>\<open>closure\<close>.\<close>

definition goto_kernel :: "LRState \<Rightarrow> symbol \<Rightarrow> LRState" where
  "goto_kernel configuration_set symb =
     foldl LRState_append []
       (map advance
          (filter (\<lambda>item. \<not> completed item \<and> Symbol_eq (rule item ! dot item) symb)
             configuration_set))"

lemma set_goto_kernel:
  "set (goto_kernel s x)
     = advance ` {item \<in> set s. \<not> completed item \<and> Symbol_eq (rule item ! dot item) x}"
proof -
  from foldl_LRState_append [of "[]" "map advance
          (filter (\<lambda>item. \<not> completed item \<and> Symbol_eq (rule item ! dot item) x) s)"]
  show ?thesis unfolding goto_kernel_def by auto
qed

lemma goto_Inr:
  "goto g s x = Some (Inr n) \<longleftrightarrow> x \<noteq> EMPTY \<and> closure g (goto_kernel s x) = Some n"
  by (auto simp: goto_def goto_kernel_def)

lemma goto_kernel_dot: "it \<in> set (goto_kernel s x) \<Longrightarrow> 0 < dot it"
  by (auto simp: set_goto_kernel advance_def)

lemma generated_closure:
  assumes fg: "finite_grammar g T" and c: "closure g I = Some J"
    and k: "set I \<subseteq> set (kernel start J)"
  shows "generated_state g start J"
  unfolding generated_state_def
proof (intro conjI allI impI)
  show "closed_under_rule g (set J)" by (rule closure_unique(2) [OF fg c])
  fix S assume "set (kernel start J) \<subseteq> S \<and> closed_under_rule g S"
  with k have "set I \<subseteq> S" "closed_under_rule g S" by auto
  then show "set J \<subseteq> S" by (rule closure_unique(3) [OF fg c])
qed

lemma generated_goto:
  assumes fg: "finite_grammar g T" and "goto g s x = Some (Inr n)"
  shows "generated_state g start n"
proof -
  from assms(2) have c: "closure g (goto_kernel s x) = Some n" by (simp add: goto_Inr)
  have "set (goto_kernel s x) \<subseteq> set (kernel start n)"
    using closure_unique(1) [OF fg c] goto_kernel_dot by (auto simp: kernel_def)
  with fg c show ?thesis by (rule generated_closure)
qed

lemma generated_start:
  assumes fg: "finite_grammar g T" and "closure g start = Some s0"
  shows "generated_state g start s0"
proof -
  have "set start \<subseteq> set (kernel start s0)"
    using closure_unique(1) [OF fg assms(2)] by (auto simp: kernel_def)
  with fg assms(2) show ?thesis by (rule generated_closure)
qed

lemma generated_eq_same_set:
  assumes "generated_state g start s" "generated_state g start t" "LRState_eq start s t"
  shows "set s = set t"
proof -
  have k: "set (kernel start s) \<subseteq> set s" "set (kernel start t) \<subseteq> set t"
    by (auto simp: kernel_def)
  from assms(3) have e: "set (kernel start s) = set (kernel start t)" by (simp add: LRState_eq_def)
  from assms(1) k(2) e assms(2) have "set s \<subseteq> set t" unfolding generated_state_def by auto
  moreover from assms(2) k(1) e assms(1) have "set t \<subseteq> set s" unfolding generated_state_def by auto
  ultimately show ?thesis by simp
qed

lemma goto_same_set:
  assumes fg: "finite_grammar g T" and "set s = set t" "goto g s x = Some (Inr n)"
  shows "\<exists>n'. goto g t x = Some (Inr n') \<and> set n = set n'"
proof -
  from assms(3) have x: "x \<noteq> EMPTY" and c: "closure g (goto_kernel s x) = Some n"
    by (simp_all add: goto_Inr)
  have "set (goto_kernel s x) = set (goto_kernel t x)" using assms(2) by (simp add: set_goto_kernel)
  from closure_same_set [OF fg this c] obtain n' where
    "closure g (goto_kernel t x) = Some n'" "set n = set n'" by blast
  with x show ?thesis by (auto simp: goto_Inr)
qed

lemma reachable_generated:
  assumes fg: "finite_grammar g T" and "closure g start = Some s0"
  shows "s \<in> reachable_states g s0 X \<Longrightarrow> generated_state g start s"
proof (induction rule: reachable_states.induct)
  case start
  show ?case by (rule generated_start [OF assms])
next
  case (step s x n)
  from fg step.hyps(3) show ?case by (rule generated_goto)
qed

text \<open>Every non-empty \<^verbatim>\<open>goto\<close> of the states \<open>sts\<close> is equal to a state of \<open>known\<close>.\<close>

definition goto_covered :: "grammar \<Rightarrow> LRState \<Rightarrow> symbol list \<Rightarrow> LRState list \<Rightarrow> LRState list \<Rightarrow> bool" where
  "goto_covered g start symbols sts known =
     (\<forall>s \<in> set sts. \<forall>x \<in> set symbols. \<forall>n.
        goto g s x = Some (Inr n) \<and> n \<noteq> [] \<longrightarrow> list_ex (LRState_eq start n) known)"

lemma list_ex_append_left: "list_ex P xs \<Longrightarrow> list_ex P (xs @ ys)"
  by (auto simp: list_ex_iff)

lemma get_items_symbols_result:
  "get_items_symbols g start state xs (l, c) = Some (Inr (l1, c1)) \<Longrightarrow>
     (\<exists>zs. l1 = l @ zs
         \<and> (\<forall>n \<in> set zs. n \<noteq> [] \<and> (\<exists>x \<in> set xs. goto g state x = Some (Inr n)))
         \<and> c1 = (c \<or> zs \<noteq> []))
     \<and> goto_covered g start xs [state] l1"
proof (induction xs arbitrary: l c)
  case Nil
  then show ?case by (simp add: goto_covered_def)
next
  case (Cons x xs)
  from Cons.prems obtain n where n: "goto g state x = Some (Inr n)"
    by (auto split: option.splits sum.splits)
  from Cons.prems n consider
    (new) "n \<noteq> []" "\<not> list_ex (LRState_eq start n) l"
          "get_items_symbols g start state xs (l @ [n], True) = Some (Inr (l1, c1))"
    | (old) "n = [] \<or> list_ex (LRState_eq start n) l"
          "get_items_symbols g start state xs (l, c) = Some (Inr (l1, c1))"
    by (auto split: if_splits)
  then show ?case
  proof cases
    case new
    from Cons.IH [OF new(3)] obtain zs where
      z: "l1 = (l @ [n]) @ zs"
         "\<forall>n \<in> set zs. n \<noteq> [] \<and> (\<exists>x \<in> set xs. goto g state x = Some (Inr n))"
      and cov: "goto_covered g start xs [state] l1" by blast
    have c1: "c1" using Cons.IH [OF new(3)] by auto
    have a: "l1 = l @ (n # zs)" using z(1) by simp
    have b: "\<forall>m \<in> set (n # zs). m \<noteq> [] \<and> (\<exists>y \<in> set (x # xs). goto g state y = Some (Inr m))"
      using z(2) n new(1) by auto
    have d: "c1 = (c \<or> n # zs \<noteq> [])" using c1 by simp
    have "list_ex (LRState_eq start n) l1"
      unfolding a by (auto simp: list_ex_iff LRState_eq_def)
    then have "goto_covered g start (x # xs) [state] l1"
      using cov n by (auto simp: goto_covered_def)
    with a b d show ?thesis by blast
  next
    case old
    from Cons.IH [OF old(2)] obtain zs where
      z: "l1 = l @ zs"
         "\<forall>n \<in> set zs. n \<noteq> [] \<and> (\<exists>x \<in> set xs. goto g state x = Some (Inr n))"
         "c1 = (c \<or> zs \<noteq> [])"
      and cov: "goto_covered g start xs [state] l1" by blast
    have b: "\<forall>m \<in> set zs. m \<noteq> [] \<and> (\<exists>y \<in> set (x # xs). goto g state y = Some (Inr m))"
      using z(2) by auto
    have "n \<noteq> [] \<longrightarrow> list_ex (LRState_eq start n) l1"
      using old(1) unfolding z(1) by (auto dest: list_ex_append_left)
    then have "goto_covered g start (x # xs) [state] l1"
      using cov n by (auto simp: goto_covered_def)
    with z(1,3) b show ?thesis by blast
  qed
qed

lemma goto_covered_mono: "goto_covered g start xs sts l \<Longrightarrow> goto_covered g start xs sts (l @ zs)"
  by (auto simp: goto_covered_def dest: list_ex_append_left)

lemma get_items_states_result:
  "get_items_states g start xs sts (l, c) = Some (Inr (l1, c1)) \<Longrightarrow>
     (\<exists>zs. l1 = l @ zs
         \<and> (\<forall>n \<in> set zs. n \<noteq> [] \<and> (\<exists>s \<in> set sts. \<exists>x \<in> set xs. goto g s x = Some (Inr n)))
         \<and> c1 = (c \<or> zs \<noteq> []))
     \<and> goto_covered g start xs sts l1"
proof (induction sts arbitrary: l c)
  case Nil
  then show ?case by (simp add: goto_covered_def)
next
  case (Cons s sts)
  from Cons.prems obtain l2 c2 where
    s: "get_items_symbols g start s xs (l, c) = Some (Inr (l2, c2))"
       "get_items_states g start xs sts (l2, c2) = Some (Inr (l1, c1))"
    by (auto split: option.splits sum.splits)
  from get_items_symbols_result [OF s(1)] obtain zs1 where
    z1: "l2 = l @ zs1" "\<forall>n \<in> set zs1. n \<noteq> [] \<and> (\<exists>x \<in> set xs. goto g s x = Some (Inr n))"
        "c2 = (c \<or> zs1 \<noteq> [])" and cov1: "goto_covered g start xs [s] l2" by blast
  from Cons.IH [OF s(2)] obtain zs2 where
    z2: "l1 = l2 @ zs2"
        "\<forall>n \<in> set zs2. n \<noteq> [] \<and> (\<exists>s \<in> set sts. \<exists>x \<in> set xs. goto g s x = Some (Inr n))"
        "c1 = (c2 \<or> zs2 \<noteq> [])" and cov2: "goto_covered g start xs sts l1" by blast
  have a: "l1 = l @ (zs1 @ zs2)" using z1(1) z2(1) by simp
  have b: "\<forall>n \<in> set (zs1 @ zs2). n \<noteq> []
             \<and> (\<exists>t \<in> set (s # sts). \<exists>x \<in> set xs. goto g t x = Some (Inr n))"
    using z1(2) z2(2) by auto
  have d: "c1 = (c \<or> zs1 @ zs2 \<noteq> [])" using z1(3) z2(3) by auto
  have "goto_covered g start xs [s] l1" unfolding z2(1) using cov1 by (rule goto_covered_mono)
  with cov2 have "goto_covered g start xs (s # sts) l1" by (auto simp: goto_covered_def)
  with a b d show ?case by blast
qed

lemma get_items_while_result:
  assumes "get_items_while g start xs l = Some y"
  shows "set l \<subseteq> reachable_states g s0 (set xs) \<longrightarrow>
         (\<forall>R. y = Inr R \<longrightarrow>
            (\<exists>zs. R = l @ zs) \<and> set R \<subseteq> reachable_states g s0 (set xs)
            \<and> goto_covered g start xs R R)"
proof -
  let ?P = "\<lambda>g start xs l y. set l \<subseteq> reachable_states g s0 (set xs) \<longrightarrow>
         (\<forall>R. y = Inr R \<longrightarrow>
            (\<exists>zs. R = l @ zs) \<and> set R \<subseteq> reachable_states g s0 (set xs)
            \<and> goto_covered g start xs R R)"
  have "?P g start xs l y"
  proof (rule get_items_while.raw_induct [where P = ?P, OF _ assms], goal_cases)
    case (1 f g start xs l y)
    show ?case
    proof (intro impI allI)
      fix R assume l: "set l \<subseteq> reachable_states g s0 (set xs)" and y: "y = Inr R"
      from "1"(2) y obtain l1 c1 where
        p: "get_items_states g start xs l (l, False) = Some (Inr (l1, c1))"
        by (auto split: option.splits sum.splits prod.splits if_splits)
      from get_items_states_result [OF p] obtain zs where
        z: "l1 = l @ zs"
           "\<forall>n \<in> set zs. n \<noteq> [] \<and> (\<exists>s \<in> set l. \<exists>x \<in> set xs. goto g s x = Some (Inr n))"
           "c1 = (False \<or> zs \<noteq> [])" and cov: "goto_covered g start xs l l1" by blast
      have l1: "set l1 \<subseteq> reachable_states g s0 (set xs)"
      proof
        fix n assume "n \<in> set l1"
        with z(1) consider "n \<in> set l" | "n \<in> set zs" by auto
        then show "n \<in> reachable_states g s0 (set xs)"
        proof cases
          case 1
          with l show ?thesis by blast
        next
          case 2
          with z(2) obtain s x where
            "s \<in> set l" "x \<in> set xs" "goto g s x = Some (Inr n)" "n \<noteq> []" by blast
          with l show ?thesis by (auto intro: reachable_states.step)
        qed
      qed
      show "(\<exists>zs. R = l @ zs) \<and> set R \<subseteq> reachable_states g s0 (set xs)
              \<and> goto_covered g start xs R R"
      proof (cases c1)
        case True
        with "1"(2) p y have "f g start xs l1 = Some (Inr R)" by simp
        from "1"(1) [OF this] l1 have
          "(\<exists>zs. R = l1 @ zs) \<and> set R \<subseteq> reachable_states g s0 (set xs)
              \<and> goto_covered g start xs R R" by simp
        with z(1) show ?thesis by auto
      next
        case False
        with "1"(2) p y have "R = l1" by simp
        moreover from False z(3) have "zs = []" by simp
        ultimately show ?thesis using z(1) l1 cov by simp
      qed
    qed
  qed
  then show ?thesis by simp
qed

lemma get_items_result:
  assumes "get_items g xs = Some (Inr R)"
  shows "\<exists>start s0 zs. init_kernel g = Inr start \<and> closure g start = Some s0 \<and> R = s0 # zs
           \<and> set R \<subseteq> reachable_states g s0 (set xs) \<and> goto_covered g start xs R R"
proof -
  from assms obtain start s0 where
    i: "init_kernel g = Inr start" "closure g start = Some s0"
       "get_items_while g start xs [s0] = Some (Inr R)"
    by (auto simp: get_items_def split: sum.splits option.splits)
  have "set [s0] \<subseteq> reachable_states g s0 (set xs)"
    by (simp add: reachable_states.start)
  with get_items_while_result [OF i(3), of s0] obtain zs where
    "R = [s0] @ zs" "set R \<subseteq> reachable_states g s0 (set xs)" "goto_covered g start xs R R"
    by blast
  with i(1,2) show ?thesis by auto
qed

lemma reachable_in_result:
  assumes fg: "finite_grammar g T" and c: "closure g start = Some s0"
    and s0: "s0 \<in> set R" and reach: "set R \<subseteq> reachable_states g s0 Y"
    and cov: "goto_covered g start ys R R" and sub: "X \<subseteq> set ys"
  shows "s \<in> reachable_states g s0 X \<Longrightarrow> \<exists>t \<in> set R. set s = set t"
proof (induction rule: reachable_states.induct)
  case start
  from s0 show ?case by blast
next
  case (step s x n)
  from step.IH obtain t where t: "t \<in> set R" "set s = set t" by blast
  from goto_same_set [OF fg t(2) step.hyps(3)] obtain n' where
    n': "goto g t x = Some (Inr n')" "set n = set n'" by blast
  from n'(2) step.hyps(4) have ne: "n' \<noteq> []" by auto
  from step.hyps(2) sub have "x \<in> set ys" by blast
  with cov t(1) n'(1) ne have "list_ex (LRState_eq start n') R"
    unfolding goto_covered_def by blast
  then obtain u where u: "u \<in> set R" "LRState_eq start n' u" by (auto simp: list_ex_iff)
  from u(1) reach have "u \<in> reachable_states g s0 Y" by blast
  then have "generated_state g start u" by (rule reachable_generated [OF fg c])
  moreover have "generated_state g start n'" using fg n'(1) by (rule generated_goto)
  ultimately have "set n' = set u" using u(2) by (intro generated_eq_same_set)
  with n'(2) u(1) show ?case by auto
qed

lemma state_id_first: "state_id start (s # zs) s = 0"
  by (simp add: state_id_def LRState_eq_def)

text \<open>
  C5, amended. For a finite grammar, two runs of \<^verbatim>\<open>get_items\<close> that iterate the set
  \<^verbatim>\<open>non_terminals | terminals\<close> in any two orders find the same states: both sequences
  begin with the start state (id 0), and every state of one run is, as a set of items, a
  state of the other. With the same order the two sequences are identical. Only the
  order of discovery, hence the ids, depends on the iteration order.
\<close>

theorem get_items_same_states_in_any_order:
  assumes "finite_grammar g T"
    and "set xs = non_terminals g \<union> terminals g" and "set ys = non_terminals g \<union> terminals g"
    and "get_items g xs = Some (Inr R1)" and "get_items g ys = Some (Inr R2)"
  shows "R1 \<noteq> [] \<and> R2 \<noteq> [] \<and> hd R1 = hd R2
         \<and> (\<exists>start. init_kernel g = Inr start \<and> closure g start = Some (hd R1)
               \<and> state_id start R1 (hd R1) = 0 \<and> state_id start R2 (hd R2) = 0)
         \<and> (\<forall>s \<in> set R1. \<exists>t \<in> set R2. set s = set t)
         \<and> (\<forall>t \<in> set R2. \<exists>s \<in> set R1. set s = set t)
         \<and> (xs = ys \<longrightarrow> R1 = R2)"
proof -
  from get_items_result [OF assms(4)] obtain start s0 zs1 where
    r1: "init_kernel g = Inr start" "closure g start = Some s0" "R1 = s0 # zs1"
        "set R1 \<subseteq> reachable_states g s0 (set xs)" "goto_covered g start xs R1 R1" by blast
  from get_items_result [OF assms(5)] r1(1,2) obtain zs2 where
    r2: "R2 = s0 # zs2"
        "set R2 \<subseteq> reachable_states g s0 (set ys)" "goto_covered g start ys R2 R2" by auto
  have e: "set xs = set ys" using assms(2,3) by simp
  have a: "\<forall>s \<in> set R1. \<exists>t \<in> set R2. set s = set t"
  proof
    fix s assume "s \<in> set R1"
    with r1(4) have "s \<in> reachable_states g s0 (set xs)" by blast
    then show "\<exists>t \<in> set R2. set s = set t"
      using e r2(1) by (intro reachable_in_result [OF assms(1) r1(2) _ r2(2,3)]) auto
  qed
  have b: "\<forall>t \<in> set R2. \<exists>s \<in> set R1. set s = set t"
  proof
    fix t assume "t \<in> set R2"
    with r2(2) have "t \<in> reachable_states g s0 (set ys)" by blast
    then have "\<exists>s \<in> set R1. set t = set s"
      using e r1(3) by (intro reachable_in_result [OF assms(1) r1(2) _ r1(4,5)]) auto
    then show "\<exists>s \<in> set R1. set s = set t" by auto
  qed
  have c: "xs = ys \<longrightarrow> R1 = R2" using assms(4,5) by auto
  have d: "\<exists>start. init_kernel g = Inr start \<and> closure g start = Some (hd R1)
               \<and> state_id start R1 (hd R1) = 0 \<and> state_id start R2 (hd R2) = 0"
    using r1(1,2,3) r2(1) by (auto simp: state_id_first)
  from r1(3) r2(1) a b c d show ?thesis by simp
qed

definition tiny_states_rev :: "LRState list" where
  "tiny_states_rev = [tiny_start, tiny_after_x, tiny_after_S, tiny_after_EOF]"

lemma tiny_get_items_reversed: "get_items tiny_grammar (rev tiny_symbols) = Some (Inr tiny_states_rev)"
  by code_simp

lemma finite_tiny_grammar: "finite_grammar tiny_grammar (\<Union>(set ` snd ` set tiny_firsts))"
  unfolding tiny_grammar_def by (rule finite_table_grammar)

lemma tiny_symbols_set:
  "set tiny_symbols = non_terminals tiny_grammar \<union> terminals tiny_grammar"
  "set (rev tiny_symbols) = non_terminals tiny_grammar \<union> terminals tiny_grammar"
  by (auto simp: tiny_symbols_def tiny_grammar_def table_grammar_def)

lemma tiny_ids:
  "state_id tiny_kernel tiny_states tiny_after_x = 2
   \<and> state_id tiny_kernel tiny_states_rev tiny_after_x = 1
   \<and> encode_action (state_id tiny_kernel tiny_states) (Shift tiny_after_x) = EInt 5
   \<and> encode_action (state_id tiny_kernel tiny_states_rev) (Shift tiny_after_x) = EInt 3"
  by code_simp

lemma tiny_orders_differ: "tiny_states \<noteq> tiny_states_rev"
  by code_simp

text \<open>
  On the grammar \<open>S' \<rightarrow> S\<close>, \<open>S \<rightarrow> x\<close>, iterating the symbols in the opposite order swaps the
  second and the third state: the state reached on \<open>x\<close> has id 2 in one run and id 1 in the
  other, and the shift to it is encoded as 5 and as 3.
\<close>

theorem state_order_counterexample:
  "set tiny_symbols = non_terminals tiny_grammar \<union> terminals tiny_grammar
   \<and> set (rev tiny_symbols) = non_terminals tiny_grammar \<union> terminals tiny_grammar
   \<and> get_items tiny_grammar tiny_symbols = Some (Inr tiny_states)
   \<and> get_items tiny_grammar (rev tiny_symbols) = Some (Inr tiny_states_rev)
   \<and> tiny_states \<noteq> tiny_states_rev
   \<and> state_id tiny_kernel tiny_states tiny_after_x = 2
   \<and> state_id tiny_kernel tiny_states_rev tiny_after_x = 1
   \<and> encode_action (state_id tiny_kernel tiny_states) (Shift tiny_after_x) = EInt 5
   \<and> encode_action (state_id tiny_kernel tiny_states_rev) (Shift tiny_after_x) = EInt 3"
  using tiny_symbols_set tiny_get_items tiny_get_items_reversed tiny_orders_differ tiny_ids
  by simp

theorem get_items_same_states_in_any_order_witness:
  "finite_grammar tiny_grammar (\<Union>(set ` snd ` set tiny_firsts))
   \<and> set tiny_symbols = non_terminals tiny_grammar \<union> terminals tiny_grammar
   \<and> set (rev tiny_symbols) = non_terminals tiny_grammar \<union> terminals tiny_grammar
   \<and> get_items tiny_grammar tiny_symbols = Some (Inr tiny_states)
   \<and> get_items tiny_grammar (rev tiny_symbols) = Some (Inr tiny_states_rev)
   \<and> hd tiny_states = hd tiny_states_rev
   \<and> set ` set tiny_states \<subseteq> set ` set tiny_states_rev
   \<and> set ` set tiny_states_rev \<subseteq> set ` set tiny_states"
proof -
  note t = get_items_same_states_in_any_order [OF finite_tiny_grammar tiny_symbols_set
      tiny_get_items tiny_get_items_reversed]
  from t have "hd tiny_states = hd tiny_states_rev" by blast
  moreover from t have "set ` set tiny_states \<subseteq> set ` set tiny_states_rev" by blast
  moreover from t have "set ` set tiny_states_rev \<subseteq> set ` set tiny_states" by blast
  ultimately show ?thesis
    using finite_tiny_grammar tiny_symbols_set tiny_get_items tiny_get_items_reversed by simp
qed

section \<open>The state that accepts\<close>


text \<open>The augmented item \<open>(S' \<rightarrow> S EOF, EOF)\<close> with the dot at position \<open>d\<close>.\<close>

definition start_item :: "grammar \<Rightarrow> symbol \<Rightarrow> nat \<Rightarrow> LR1Item" where
  "start_item g S d = LR1Item (start_symbol g) d [S, EOF] EOF"

text \<open>An item of another symbol, over a rule without the start symbol and without \<^verbatim>\<open>EOF\<close>.\<close>

definition plain_item :: "grammar \<Rightarrow> LR1Item \<Rightarrow> bool" where
  "plain_item g it =
     (\<not> Symbol_eq (item_name it) (start_symbol g)
      \<and> (\<forall>s \<in> set (rule it). \<not> Symbol_eq s (start_symbol g) \<and> \<not> Symbol_eq s EOF))"








lemma plain_not_start: "plain_item g it \<Longrightarrow> it \<noteq> start_item g S d"
  by (auto simp: plain_item_def start_item_def Symbol_eq_def)





































section \<open>The closure as its callers get it: the memo table\<close>



text \<open>
  An item set that its kernel determines: every closed set that holds its kernel items
  holds all its items. A set of kernel items is one, and so is the closure of one.
\<close>

definition kernel_generated :: "grammar \<Rightarrow> LRState \<Rightarrow> LRState \<Rightarrow> bool" where
  "kernel_generated g start I =
     (\<forall>S. set (kernel start I) \<subseteq> S \<and> closed_under_rule g S \<longrightarrow> set I \<subseteq> S)"



lemma kernel_generatedD:
  "kernel_generated g start I \<Longrightarrow> set (kernel start I) \<subseteq> S \<Longrightarrow> closed_under_rule g S
     \<Longrightarrow> set I \<subseteq> S"
  unfolding kernel_generated_def by simp

lemma kernel_generated_closure:
  assumes fg: "finite_grammar g T" and kg: "kernel_generated g start I"
    and c: "closure g I = Some J"
  shows "kernel_generated g start J"
  unfolding kernel_generated_def
proof (intro allI impI)
  fix S assume s: "set (kernel start J) \<subseteq> S \<and> closed_under_rule g S"
  from closure_unique(1) [OF fg c] have "set (kernel start I) \<subseteq> set (kernel start J)"
    by (rule kernel_mono)
  also from s have "\<dots> \<subseteq> S" by simp
  finally have "set I \<subseteq> S" using s by (intro kernel_generatedD [OF kg]) simp_all
  then show "set J \<subseteq> S" using s by (intro closure_unique(3) [OF fg c]) simp_all
qed













lemma memo_empty_kernel: "goto_kernel start_closure (Terminal '')'') = []"
  by code_simp





















section \<open>The length a reduction records\<close>

text \<open>
  C6. For a complete item \<open>(A \<rightarrow> \<alpha> \<cdot>, a)\<close> whose left-hand side is not the start symbol,
  \<^verbatim>\<open>construct\<close> writes to the cell of \<open>a\<close> a reduction that records the number of symbols
  of \<open>\<alpha>\<close> that are not epsilon, and the serialised table carries that number; for the
  one-element rule \<^verbatim>\<open>[EMPTY]\<close> it is 0, and an epsilon stored in a rule never adds to
  the number of stack entries popped.
\<close>

theorem Reduce_length_excludes_epsilon:
  "(completed item \<and> \<not> Symbol_eq (item_name item) (start_symbol g) \<longrightarrow>
      construct_item g start items state_i item table
        = Some (Inr (dict_set (key_eq start) table (state_i, name (lookahead item))
             (Reduce (item_name item)
                (int (length (filter (\<lambda>s. \<not> Symbol_eq s EMPTY) (rule item))))))))
   \<and> encode_action ident (Reduce_of lhs alpha)
       = EPair (name lhs) (int (length (filter (\<lambda>s. \<not> Symbol_eq s EMPTY) alpha)))
   \<and> encode_action ident (Reduce_of lhs [EMPTY]) = EPair (name lhs) 0
   \<and> encode_action ident (Reduce_of lhs (xs @ EMPTY # ys))
       = encode_action ident (Reduce_of lhs (xs @ ys))"
  by (simp add: construct_item_def Reduce_of_def Expansion_len_filter Symbol_eq_EMPTY_self)

text \<open>An item of an epsilon rule \<open>A \<rightarrow> \<epsilon>\<close>: complete with the dot at 0.\<close>

definition epsilon_item :: LR1Item where
  "epsilon_item = LR1Item (NonTerminal ''A'') 0 [EMPTY] (Terminal ''b'')"

theorem Reduce_length_excludes_epsilon_witness:
  "completed epsilon_item
   \<and> \<not> Symbol_eq (item_name epsilon_item) (start_symbol tiny_grammar)
   \<and> construct_item tiny_grammar tiny_kernel [] [epsilon_item] epsilon_item []
       = Some (Inr [(([epsilon_item], ''b''), Reduce (NonTerminal ''A'') 0)])"
proof -
  have c: "completed epsilon_item"
    by (simp add: completed_def epsilon_item_def Expansion_len_filter Symbol_eq_EMPTY_self)
  have n: "\<not> Symbol_eq (item_name epsilon_item) (start_symbol tiny_grammar)"
    by (simp add: epsilon_item_def tiny_grammar_def table_grammar_def Symbol_eq_def)
  from Reduce_length_excludes_epsilon [of epsilon_item tiny_grammar tiny_kernel "[]"
      "[epsilon_item]" "[]"] c n
  have "construct_item tiny_grammar tiny_kernel [] [epsilon_item] epsilon_item []
        = Some (Inr (dict_set (key_eq tiny_kernel) [] ([epsilon_item], name (lookahead epsilon_item))
             (Reduce (item_name epsilon_item)
                (int (length (filter (\<lambda>s. \<not> Symbol_eq s EMPTY) (rule epsilon_item)))))))"
    by blast
  moreover have "dict_set (key_eq tiny_kernel) [] ([epsilon_item], name (lookahead epsilon_item))
             (Reduce (item_name epsilon_item)
                (int (length (filter (\<lambda>s. \<not> Symbol_eq s EMPTY) (rule epsilon_item)))))
        = [(([epsilon_item], ''b''), Reduce (NonTerminal ''A'') 0)]"
    by (simp add: dict_set_def epsilon_item_def Symbol_eq_EMPTY_self)
  ultimately show ?thesis using c n by simp
qed

end
